theory Spec2Isabelle
  imports Complex_Main "HOL-Library.Word" "HOL-Library.Sublist"
begin

section \<open>JavaScript strings and values\<close>

text \<open>
  A JavaScript string is a sequence of UTF-16 code units. The parser of
  \<^verbatim>\<open>src/js/col-parser.js\<close> only ever compares code units with ASCII characters and with
  the members of the regular-expression classes \<^verbatim>\<open>\s\<close>, \<^verbatim>\<open>\d\<close>, \<^verbatim>\<open>\w\<close> and \<^verbatim>\<open>.\<close>, so a string is
  modelled as a list of 16-bit words. \<open>js\<close> turns an ASCII literal into such a string.
\<close>

type_synonym cu = "16 word"
type_synonym jsstring = "cu list"

definition js :: "string \<Rightarrow> jsstring" where
  "js s = map (\<lambda>c. of_nat (of_char c)) s"

abbreviation NL :: cu where "NL \<equiv> 0x0A"
abbreviation SP :: cu where "SP \<equiv> 0x20"
abbreviation DQUOTE :: cu where "DQUOTE \<equiv> 0x22"
abbreviation SQUOTE :: cu where "SQUOTE \<equiv> 0x27"
abbreviation AMP :: cu where "AMP \<equiv> 0x26"
abbreviation LESS :: cu where "LESS \<equiv> 0x3C"
abbreviation GREATER :: cu where "GREATER \<equiv> 0x3E"

text \<open>
  The values a JavaScript caller can pass. Only \<^verbatim>\<open>typeof\<close> and truthiness of a value are
  ever inspected (by \<^verbatim>\<open>escapeHtml\<close>, \<^verbatim>\<open>sanitizeHtml\<close> and \<^verbatim>\<open>parse\<close>), so numbers are
  kept as integers and objects other than arrays are opaque.
\<close>

datatype jsval =
    JUndefined
  | JNull
  | JBoolean bool
  | JNumber int
  | JString jsstring
  | JArray "jsval list"
  | JObject

text \<open>\<^verbatim>\<open>typeof v === 'string'\<close> and \<^verbatim>\<open>!v\<close> for such a value.\<close>

fun is_string :: "jsval \<Rightarrow> bool" where
  "is_string (JString s) = True"
| "is_string v = False"

fun falsy :: "jsval \<Rightarrow> bool" where
  "falsy JUndefined = True"
| "falsy JNull = True"
| "falsy (JBoolean b) = (\<not> b)"
| "falsy (JNumber n) = (n = 0)"
| "falsy (JString s) = (s = [])"
| "falsy (JArray xs) = False"
| "falsy JObject = False"

text \<open>
  The class \<^verbatim>\<open>\s\<close> of a JavaScript regular expression, which is also the set of code
  units that \<^verbatim>\<open>String.prototype.trim\<close> removes: WhiteSpace and LineTerminator of ECMAScript.
\<close>

definition is_ws :: "cu \<Rightarrow> bool" where
  "is_ws c = (c = 0x09 \<or> c = 0x0A \<or> c = 0x0B \<or> c = 0x0C \<or> c = 0x0D \<or> c = 0x20
     \<or> c = 0xA0 \<or> c = 0x1680 \<or> (0x2000 \<le> c \<and> c \<le> 0x200A) \<or> c = 0x2028 \<or> c = 0x2029
     \<or> c = 0x202F \<or> c = 0x205F \<or> c = 0x3000 \<or> c = 0xFEFF)"

text \<open>The line terminators, which \<^verbatim>\<open>.\<close> does not match.\<close>

definition is_lt :: "cu \<Rightarrow> bool" where
  "is_lt c = (c = 0x0A \<or> c = 0x0D \<or> c = 0x2028 \<or> c = 0x2029)"

text \<open>The classes \<^verbatim>\<open>\d\<close> and \<^verbatim>\<open>\w\<close>.\<close>

definition is_digit :: "cu \<Rightarrow> bool" where
  "is_digit c = (0x30 \<le> c \<and> c \<le> 0x39)"

definition is_word :: "cu \<Rightarrow> bool" where
  "is_word c = ((0x41 \<le> c \<and> c \<le> 0x5A) \<or> (0x61 \<le> c \<and> c \<le> 0x7A) \<or> is_digit c \<or> c = 0x5F)"

text \<open>\<^verbatim>\<open>s.trim()\<close>\<close>

definition trim :: "jsstring \<Rightarrow> jsstring" where
  "trim s = rev (dropWhile is_ws (rev (dropWhile is_ws s)))"

text \<open>
  \<^verbatim>\<open>s.split(d)\<close> for a separator \<open>d\<close> of one code unit: the pieces between the separators,
  so the empty string gives one empty piece.
\<close>

fun split_on :: "cu \<Rightarrow> jsstring \<Rightarrow> jsstring list" where
  "split_on d [] = [[]]"
| "split_on d (c # cs) =
     (if c = d then [] # split_on d cs
      else (case split_on d cs of
              p # ps \<Rightarrow> (c # p) # ps
            | [] \<Rightarrow> [[c]]))"

text \<open>\<^verbatim>\<open>xs.join(sep)\<close>\<close>

fun join :: "jsstring \<Rightarrow> jsstring list \<Rightarrow> jsstring" where
  "join sep [] = []"
| "join sep [x] = x"
| "join sep (x # y # ys) = x @ sep @ join sep (y # ys)"

section \<open>escapeHtml\<close>

text \<open>
  \<^verbatim>\<open>this.htmlEntities\<close>, the table of the constructor, as a partial map from a one-unit
  key to its entity.
\<close>

definition htmlEntities :: "cu \<Rightarrow> jsstring option" where
  "htmlEntities c =
     (if c = AMP then Some (js ''&amp;'')
      else if c = LESS then Some (js ''&lt;'')
      else if c = GREATER then Some (js ''&gt;'')
      else if c = DQUOTE then Some (js ''&quot;'')
      else if c = SQUOTE then Some (js ''&#39;'')
      else None)"

text \<open>
  \<^verbatim>\<open>text.replace(/[&<>"']/g, match => this.htmlEntities[match] || match)\<close>: every code unit
  of the class is a match of length one and is replaced by its table entry, or by itself
  when the table has none.
\<close>

definition escape_unit :: "cu \<Rightarrow> jsstring" where
  "escape_unit c =
     (if c = AMP \<or> c = LESS \<or> c = GREATER \<or> c = DQUOTE \<or> c = SQUOTE
      then (case htmlEntities c of Some e \<Rightarrow> e | None \<Rightarrow> [c])
      else [c])"

text \<open>
  \<^verbatim>\<open>escapeHtml(text)\<close>: the guard \<^verbatim>\<open>!text || typeof text !== 'string'\<close> returns the empty
  string, everything else is escaped unit by unit.
\<close>

definition escapeHtml :: "jsval \<Rightarrow> jsstring" where
  "escapeHtml text =
     (if falsy text \<or> \<not> is_string text then []
      else (case text of JString s \<Rightarrow> concat (map escape_unit s) | _ \<Rightarrow> []))"

section \<open>parseLists\<close>

text \<open>
  The tail \<^verbatim>\<open>\s+(.+)$\<close> shared by the two list patterns, matched against the rest of a line
  after the marker; the result is the captured group. The patterns have no \<^verbatim>\<open>m\<close> flag, so
  \<^verbatim>\<open>$\<close> is the end of the string, and \<^verbatim>\<open>.\<close> matches no line terminator.

  \<^verbatim>\<open>\s+\<close> is greedy and first takes the whole run \<open>w\<close> of white space. When text \<open>t\<close>
  follows, \<^verbatim>\<open>(.+)$\<close> has to match all of \<open>t\<close>, and giving back white space does not help,
  since the group would still have to cover \<open>t\<close>. When nothing follows, the matcher
  backtracks: \<^verbatim>\<open>\s+\<close> gives back its last unit, which the group then matches if it is not a
  line terminator (giving back more would put that unit inside the group as well).
\<close>

definition item_text :: "jsstring \<Rightarrow> jsstring option" where
  "item_text r =
     (let w = takeWhile is_ws r; t = dropWhile is_ws r in
      if w = [] then None
      else if t \<noteq> [] then (if list_ex is_lt t then None else Some t)
      else if 2 \<le> length w \<and> \<not> is_lt (last w) then Some [last w]
      else None)"

text \<open>
  \<^verbatim>\<open>line.match(/^[\s]*[-*+]\s+(.+)$/)\<close>: the leading white space is skipped (the marker is
  not white space, so the greedy star has one way to match), then comes one marker.
  The result is group 1, or \<open>None\<close> for \<^verbatim>\<open>null\<close>.
\<close>

definition unorderedMatch :: "jsstring \<Rightarrow> jsstring option" where
  "unorderedMatch line =
     (case dropWhile is_ws line of
        [] \<Rightarrow> None
      | m # r \<Rightarrow> if m = 0x2D \<or> m = 0x2A \<or> m = 0x2B then item_text r else None)"

text \<open>
  \<^verbatim>\<open>line.match(/^[\s]*\d+\.\s+(.+)$/)\<close>: \<^verbatim>\<open>\d+\<close> takes the whole run of digits (a shorter
  one would leave a digit where the dot has to be).
\<close>

definition orderedMatch :: "jsstring \<Rightarrow> jsstring option" where
  "orderedMatch line =
     (let r0 = dropWhile is_ws line; ds = takeWhile is_digit r0 in
      if ds = [] then None
      else (case dropWhile is_digit r0 of
              [] \<Rightarrow> None
            | d # r \<Rightarrow> if d = 0x2E then item_text r else None))"

definition ul_open :: jsstring where
  \<open>ul_open = js ''<ul class="blog-list">''\<close>

definition ul_close :: jsstring where
  "ul_close = js ''</ul>''"

definition ol_open :: jsstring where
  \<open>ol_open = js ''<ol class="blog-list blog-ordered-list">''\<close>

definition ol_close :: jsstring where
  "ol_close = js ''</ol>''"

definition list_item :: "jsstring \<Rightarrow> jsstring" where
  \<open>list_item t = js ''<li class="blog-list-item">'' @ t @ js ''</li>''\<close>

text \<open>The three local variables of the loop of \<^verbatim>\<open>parseLists\<close>.\<close>

record list_state =
  result :: "jsstring list"
  inUnorderedList :: bool
  inOrderedList :: bool

definition push :: "jsstring list \<Rightarrow> list_state \<Rightarrow> list_state" where
  "push xs st = st\<lparr>result := result st @ xs\<rparr>"

text \<open>One iteration of the loop, on the line \<^verbatim>\<open>lines[i]\<close>.\<close>

definition list_step :: "list_state \<Rightarrow> jsstring \<Rightarrow> list_state" where
  "list_step st line =
     (case unorderedMatch line of
        Some t \<Rightarrow>
          (let st1 =
             (if \<not> inUnorderedList st then
                (let st0 = (if inOrderedList st
                            then (push [ol_close] st)\<lparr>inOrderedList := False\<rparr> else st)
                 in (push [ul_open] st0)\<lparr>inUnorderedList := True\<rparr>)
              else st)
           in push [list_item t] st1)
      | None \<Rightarrow>
          (case orderedMatch line of
             Some t \<Rightarrow>
               (let st1 =
                  (if \<not> inOrderedList st then
                     (let st0 = (if inUnorderedList st
                                 then (push [ul_close] st)\<lparr>inUnorderedList := False\<rparr> else st)
                      in (push [ol_open] st0)\<lparr>inOrderedList := True\<rparr>)
                   else st)
                in push [list_item t] st1)
           | None \<Rightarrow>
               (let st1 = (if inUnorderedList st
                           then (push [ul_close] st)\<lparr>inUnorderedList := False\<rparr> else st);
                    st2 = (if inOrderedList st1
                           then (push [ol_close] st1)\<lparr>inOrderedList := False\<rparr> else st1)
                in push [line] st2)))"

definition list_init :: list_state where
  "list_init = \<lparr>result = [], inUnorderedList = False, inOrderedList = False\<rparr>"

text \<open>The two statements after the loop, which close a list that is still open.\<close>

definition list_finish :: "list_state \<Rightarrow> jsstring list" where
  "list_finish st =
     (let r1 = (if inUnorderedList st then result st @ [ul_close] else result st);
          r2 = (if inOrderedList st then r1 @ [ol_close] else r1)
      in r2)"

text \<open>The array \<^verbatim>\<open>result\<close> at the \<^verbatim>\<open>return\<close>, and \<^verbatim>\<open>parseLists\<close> itself.\<close>

definition parseLists_lines :: "jsstring \<Rightarrow> jsstring list" where
  "parseLists_lines content = list_finish (foldl list_step list_init (split_on NL content))"

definition parseLists :: "jsstring \<Rightarrow> jsstring" where
  "parseLists content = join [NL] (parseLists_lines content)"

section \<open>Counting tags in the output\<close>

text \<open>
  The number of occurrences of a pattern \<open>p\<close> in a string, and the sum of these numbers
  over the lines of an array.
\<close>

fun count_sub :: "jsstring \<Rightarrow> jsstring \<Rightarrow> nat" where
  "count_sub p [] = 0"
| "count_sub p (c # cs) = (if prefix p (c # cs) then 1 else 0) + count_sub p cs"

definition count_lines :: "jsstring \<Rightarrow> jsstring list \<Rightarrow> nat" where
  "count_lines p ls = sum_list (map (count_sub p) ls)"

text \<open>
  In every prefix of the sequence of lines, the closing pattern \<open>pc\<close> occurs at most as
  often as the opening pattern \<open>po\<close>.
\<close>

definition balanced :: "jsstring \<Rightarrow> jsstring \<Rightarrow> jsstring list \<Rightarrow> bool" where
  "balanced po pc ls = (\<forall>n. count_lines pc (take n ls) \<le> count_lines po (take n ls))"

text \<open>A string in which no list tag is written out.\<close>

definition tag_free :: "jsstring \<Rightarrow> bool" where
  "tag_free s =
     (count_sub (js ''<ul'') s = 0 \<and> count_sub (js ''</ul>'') s = 0
      \<and> count_sub (js ''<ol'') s = 0 \<and> count_sub (js ''</ol>'') s = 0)"

text \<open>
  The invariant of the loop of \<^verbatim>\<open>parseLists\<close>: each flag says whether the array holds one
  more opening than closing tag of its type, and the array is balanced so far.
\<close>

definition lists_inv :: "jsstring list \<Rightarrow> bool \<Rightarrow> bool \<Rightarrow> bool" where
  "lists_inv r u v =
     (count_lines (js ''<ul'') r = count_lines (js ''</ul>'') r + (if u then 1 else 0)
      \<and> count_lines (js ''<ol'') r = count_lines (js ''</ol>'') r + (if v then 1 else 0)
      \<and> balanced (js ''<ul'') (js ''</ul>'') r \<and> balanced (js ''<ol'') (js ''</ol>'') r)"

definition state_inv :: "list_state \<Rightarrow> bool" where
  "state_inv st = lists_inv (result st) (inUnorderedList st) (inOrderedList st)"

section \<open>Metrics: countWords and estimateReadTime\<close>

text \<open>
  \<^verbatim>\<open>content.replace(/<[^>]*>/g, '')\<close>. At a \<^verbatim>\<open><\<close> the greedy class \<^verbatim>\<open>[^>]*\<close> runs up to the next
  \<^verbatim>\<open>>\<close>, which must exist for a match; the match is removed and the scan goes on behind
  it. Where there is no match the unit is kept.
\<close>

function strip_tags :: "jsstring \<Rightarrow> jsstring" where
  "strip_tags [] = []"
| "strip_tags (c # cs) =
     (if c = LESS \<and> GREATER \<in> set cs
      then strip_tags (tl (dropWhile (\<lambda>x. x \<noteq> GREATER) cs))
      else c # strip_tags cs)"
  by pat_completeness auto
termination
  by (relation "measure length")
     (auto intro: le_imp_less_Suc order.trans [OF diff_le_self length_dropWhile_le])

text \<open>
  \<^verbatim>\<open>s.split(/\s+/)\<close>: the pieces between the maximal runs of white space. A string that
  begins or ends with white space has an empty first or last piece, and the empty string
  has one empty piece.
\<close>

function split_ws :: "jsstring \<Rightarrow> jsstring list" where
  "split_ws s =
     (case dropWhile (\<lambda>c. \<not> is_ws c) s of
        [] \<Rightarrow> [s]
      | w # r \<Rightarrow> takeWhile (\<lambda>c. \<not> is_ws c) s # split_ws (dropWhile is_ws r))"
  by pat_completeness auto
termination
proof (relation "measure length")
  fix s :: jsstring and w r
  assume a: "dropWhile (\<lambda>c. \<not> is_ws c) s = w # r"
  have "length (dropWhile is_ws r) \<le> length r" by (rule length_dropWhile_le)
  also have "length r < length (dropWhile (\<lambda>c. \<not> is_ws c) s)" by (simp add: a)
  also have "\<dots> \<le> length s" by (rule length_dropWhile_le)
  finally show "(dropWhile is_ws r, s) \<in> measure length" by simp
qed simp

declare split_ws.simps [simp del]

text \<open>
  \<^verbatim>\<open>countWords(content)\<close>: the empty string is falsy, so \<^verbatim>\<open>textOnly ? ... : 0\<close> tests for
  emptiness.
\<close>

definition countWords :: "jsstring \<Rightarrow> nat" where
  "countWords content =
     (let textOnly = trim (strip_tags content)
      in if textOnly \<noteq> [] then length (split_ws textOnly) else 0)"

text \<open>
  \<^verbatim>\<open>estimateReadTime(content)\<close>. \<^verbatim>\<open>wordCount / wordsPerMinute\<close> is a division of doubles; the
  word count is an integer below \<open>2^53\<close>, for which the rounded quotient lies strictly
  between the same two integers as the exact one (or is the exact integer), so
  \<^verbatim>\<open>Math.ceil\<close> of it is the ceiling of the exact quotient.
\<close>

definition estimateReadTime :: "jsstring \<Rightarrow> nat" where
  "estimateReadTime content =
     (let wordCount = countWords content; wordsPerMinute = 200
      in max 1 (nat \<lceil>real wordCount / real wordsPerMinute\<rceil>))"

text \<open>
  The words of a text as the specification counts them: the maximal runs of units that
  are not white space, from left to right.
\<close>

function spec_words :: "jsstring \<Rightarrow> jsstring list" where
  "spec_words s =
     (case dropWhile is_ws s of
        [] \<Rightarrow> []
      | c # r \<Rightarrow> (c # takeWhile (\<lambda>c. \<not> is_ws c) r) # spec_words (dropWhile (\<lambda>c. \<not> is_ws c) r))"
  by pat_completeness auto
termination
proof (relation "measure length")
  fix s :: jsstring and c r
  assume a: "dropWhile is_ws s = c # r"
  have "length (dropWhile (\<lambda>c. \<not> is_ws c) r) \<le> length r" by (rule length_dropWhile_le)
  also have "length r < length (dropWhile is_ws s)" by (simp add: a)
  also have "\<dots> \<le> length s" by (rule length_dropWhile_le)
  finally show "(dropWhile (\<lambda>c. \<not> is_ws c) r, s) \<in> measure length" by simp
qed simp

declare spec_words.simps [simp del]

text \<open>A text in which a \<^verbatim>\<open><\<close> is followed, somewhere, by a \<^verbatim>\<open>>\<close>: it still holds a tag.\<close>

definition has_tag :: "jsstring \<Rightarrow> bool" where
  "has_tag s = (\<exists>a b d. s = a @ LESS # b @ GREATER # d)"

section \<open>parseMetadata\<close>

text \<open>
  The pattern \<^verbatim>\<open>/^---\s*\n([\s\S]*?)\n---\s*\n/\<close> of \<^verbatim>\<open>this.patterns.metadata\<close> is matched by
  backtracking, and the matcher below makes the same choices in the same order.

  \<open>ws_then_nl\<close> is the final \<^verbatim>\<open>\s*\n\<close>: the greedy star takes the whole run of white space
  and gives units back until a newline follows, so the match ends behind the last newline
  of the run. The result is the text behind the match.
\<close>

definition ws_then_nl :: "jsstring \<Rightarrow> jsstring option" where
  "ws_then_nl r =
     (let w = takeWhile is_ws r in
      if NL \<in> set w
      then Some (rev (takeWhile (\<lambda>c. c \<noteq> NL) (rev w)) @ dropWhile is_ws r)
      else None)"

text \<open>
  \<^verbatim>\<open>([\s\S]*?)\n---\s*\n\<close>: the lazy group grows one unit at a time until the closing
  delimiter matches behind it. The result is the group and the text behind the match.
\<close>

fun find_close :: "jsstring \<Rightarrow> (jsstring \<times> jsstring) option" where
  "find_close [] = None"
| "find_close (c # cs) =
     (case (if prefix (NL # js ''---'') (c # cs) then ws_then_nl (drop 4 (c # cs)) else None) of
        Some rest \<Rightarrow> Some ([], rest)
      | None \<Rightarrow>
          (case find_close cs of
             None \<Rightarrow> None
           | Some (g, rest) \<Rightarrow> Some (c # g, rest)))"

fun first_some :: "('a \<Rightarrow> 'b option) \<Rightarrow> 'a list \<Rightarrow> 'b option" where
  "first_some f [] = None"
| "first_some f (k # ks) = (case f k of Some y \<Rightarrow> Some y | None \<Rightarrow> first_some f ks)"

text \<open>
  \<^verbatim>\<open>content.match(this.patterns.metadata)\<close>: the result is \<open>(match[1],
  content.slice(match[0].length))\<close>, or \<open>None\<close> for \<^verbatim>\<open>null\<close>. After the opening \<^verbatim>\<open>---\<close> the
  first \<^verbatim>\<open>\s*\n\<close> may end at any newline of the run of white space \<open>w\<close> that follows; the
  greedy star tries the last one first, and for each the rest of the pattern is tried.
\<close>

definition metadata_match :: "jsstring \<Rightarrow> (jsstring \<times> jsstring) option" where
  "metadata_match content =
     (if prefix (js ''---'') content then
        (let r = drop 3 content; w = takeWhile is_ws r;
             ks = rev (filter (\<lambda>k. w ! k = NL) [0..<length w])
         in first_some (\<lambda>k. find_close (drop (Suc k) r)) ks)
      else None)"

text \<open>
  \<^verbatim>\<open>value.replace(/^["']|["']$/g, '')\<close>: a quote at index 0 is a match of the first
  alternative; behind it (or from index 0, when there was none) the only other match is
  a quote that is the last unit.
\<close>

definition is_quote :: "cu \<Rightarrow> bool" where
  "is_quote c = (c = DQUOTE \<or> c = SQUOTE)"

definition stripQuotes :: "jsstring \<Rightarrow> jsstring" where
  "stripQuotes v =
     (let v1 = (case v of [] \<Rightarrow> [] | c # cs \<Rightarrow> if is_quote c then cs else v)
      in if v1 \<noteq> [] \<and> is_quote (last v1) then butlast v1 else v1)"

text \<open>
  \<^verbatim>\<open>metadata[key] = value\<close> on the object literal \<^verbatim>\<open>{}\<close>, for a string value. The key
  \<^verbatim>\<open>__proto__\<close> reaches the setter inherited from \<^verbatim>\<open>Object.prototype\<close>, which ignores a value
  that is not an object, so no property is created.
\<close>

definition obj_set :: "(jsstring \<rightharpoonup> 'v) \<Rightarrow> jsstring \<Rightarrow> 'v \<Rightarrow> (jsstring \<rightharpoonup> 'v)" where
  "obj_set m key v = (if key = js ''__proto__'' then m else m(key \<mapsto> v))"

abbreviation COLON :: cu where "COLON \<equiv> 0x3A"

text \<open>
  The body of the loop over the lines of the front matter; \<^verbatim>\<open>continue\<close> leaves the object
  as it is. \<^verbatim>\<open>indexOf\<close> gives \<open>-1\<close> when there is no colon, else the index of the first.
\<close>

definition meta_line :: "(jsstring \<rightharpoonup> jsstring) \<Rightarrow> jsstring \<Rightarrow> (jsstring \<rightharpoonup> jsstring)" where
  "meta_line metadata line =
     (let trimmed = trim line in
      if trimmed = [] then metadata
      else if COLON \<notin> set trimmed then metadata
      else
        (let colonIndex = length (takeWhile (\<lambda>c. c \<noteq> COLON) trimmed);
             key = trim (take colonIndex trimmed);
             val = trim (drop (colonIndex + 1) trimmed)
         in if key \<noteq> [] \<and> val \<noteq> [] then obj_set metadata key (stripQuotes val)
            else metadata))"

text \<open>\<^verbatim>\<open>parseMetadata(content)\<close>: the object \<^verbatim>\<open>metadata\<close> and the remaining content.\<close>

definition parseMetadata :: "jsstring \<Rightarrow> (jsstring \<rightharpoonup> jsstring) \<times> jsstring" where
  "parseMetadata content =
     (case metadata_match content of
        None \<Rightarrow> (Map.empty, trim content)
      | Some (metadataStr, rest) \<Rightarrow>
          (foldl meta_line Map.empty (split_on NL metadataStr), trim rest))"

text \<open>
  A delimiter line of the front matter: \<^verbatim>\<open>---\<close>, followed by white space only.
\<close>

definition is_delimiter_line :: "jsstring \<Rightarrow> bool" where
  "is_delimiter_line l = (prefix (js ''---'') l \<and> list_all is_ws (drop 3 l))"

section \<open>Global replacement\<close>

text \<open>
  A pattern with the \<^verbatim>\<open>g\<close> flag is given by its matcher: \<open>m prev s\<close> matches the pattern at
  the start of \<open>s\<close>, where \<open>prev\<close> is the unit in front (\<open>None\<close> at index 0), and returns
  the captured groups and the number of units matched.

  \<^verbatim>\<open>s.replace(pattern, f)\<close> scans from the left: where the pattern matches, the replacement
  is written and the scan goes on behind the match (after an empty match, one unit is
  copied); elsewhere the unit is copied.
\<close>

type_synonym 'g matcher = "cu option \<Rightarrow> jsstring \<Rightarrow> ('g \<times> nat) option"

function replace_all :: "'g matcher \<Rightarrow> ('g \<Rightarrow> jsstring) \<Rightarrow> cu option \<Rightarrow> jsstring \<Rightarrow> jsstring" where
  "replace_all m f prev [] = (case m prev [] of None \<Rightarrow> [] | Some (g, n) \<Rightarrow> f g)"
| "replace_all m f prev (c # cs) =
     (case m prev (c # cs) of
        None \<Rightarrow> c # replace_all m f (Some c) cs
      | Some (g, n) \<Rightarrow>
          if n = 0 then f g @ c # replace_all m f (Some c) cs
          else f g @ replace_all m f (Some (last (take n (c # cs)))) (drop n (c # cs)))"
  by pat_completeness auto
termination
  by (relation "measure (\<lambda>(m, f, prev, s). length s)") auto

text \<open>The groups of the first match, as in \<^verbatim>\<open>[...s.matchAll(pattern)][0]\<close>.\<close>

fun first_match :: "'g matcher \<Rightarrow> cu option \<Rightarrow> jsstring \<Rightarrow> 'g option" where
  "first_match m prev [] = map_option fst (m prev [])"
| "first_match m prev (c # cs) =
     (case m prev (c # cs) of
        Some (g, n) \<Rightarrow> Some g
      | None \<Rightarrow> first_match m (Some c) cs)"

text \<open>
  The first occurrence of a literal \<open>p\<close>: the text in front of it. This is a lazy
  \<^verbatim>\<open>[\s\S]*?\<close> followed by \<open>p\<close>.
\<close>

fun find_sub :: "jsstring \<Rightarrow> jsstring \<Rightarrow> jsstring option" where
  "find_sub p [] = (if p = [] then Some [] else None)"
| "find_sub p (c # cs) =
     (if prefix p (c # cs) then Some [] else map_option ((#) c) (find_sub p cs))"

text \<open>
  Matching with the \<^verbatim>\<open>i\<close> flag (and no \<^verbatim>\<open>u\<close> flag) compares the upper-case forms of single
  units, except that a unit from 128 on is never mapped below 128. Against the ASCII
  patterns of the parser this is equality up to the case of ASCII letters.
\<close>

definition ascii_upper :: "cu \<Rightarrow> cu" where
  "ascii_upper c = (if 0x61 \<le> c \<and> c \<le> 0x7A then c - 0x20 else c)"

definition prefix_ci :: "jsstring \<Rightarrow> jsstring \<Rightarrow> bool" where
  "prefix_ci p s = prefix (map ascii_upper p) (map ascii_upper s)"

fun find_sub_ci :: "jsstring \<Rightarrow> jsstring \<Rightarrow> jsstring option" where
  "find_sub_ci p [] = (if p = [] then Some [] else None)"
| "find_sub_ci p (c # cs) =
     (if prefix_ci p (c # cs) then Some [] else map_option ((#) c) (find_sub_ci p cs))"

text \<open>\<^verbatim>\<open>^\<close> with the \<^verbatim>\<open>m\<close> flag: at index 0 or behind a line terminator.\<close>

definition at_bol :: "cu option \<Rightarrow> bool" where
  "at_bol prev = (case prev of None \<Rightarrow> True | Some c \<Rightarrow> is_lt c)"

text \<open>\<^verbatim>\<open>$\<close> with the \<^verbatim>\<open>m\<close> flag: at the end or in front of a line terminator.\<close>

definition at_eol :: "jsstring \<Rightarrow> bool" where
  "at_eol s = (case s of [] \<Rightarrow> True | c # cs \<Rightarrow> is_lt c)"

text \<open>
  The tail \<^verbatim>\<open>\s+(.+)$\<close> of the heading and blockquote patterns, which have the \<^verbatim>\<open>m\<close> flag:
  the group and the number of units matched. \<^verbatim>\<open>\s+\<close> takes the run \<open>w\<close> of white space
  (line terminators included). When text follows, the group is that text up to the next
  line terminator, where \<^verbatim>\<open>$\<close> holds. When the run reaches the end of the input, \<^verbatim>\<open>\s+\<close>
  gives units back until the group can start on a unit \<open>w ! p\<close> that is no line
  terminator; all units behind it are line terminators, so the group is that one unit.
\<close>

definition ws_text_m :: "jsstring \<Rightarrow> (jsstring \<times> nat) option" where
  "ws_text_m r =
     (let w = takeWhile is_ws r; t = dropWhile is_ws r in
      if w = [] then None
      else if t \<noteq> [] then
        (let g = takeWhile (\<lambda>c. \<not> is_lt c) t in Some (g, length w + length g))
      else
        (case rev (filter (\<lambda>p. \<not> is_lt (w ! p)) [1..<length w]) of
           [] \<Rightarrow> None
         | p # ps \<Rightarrow> Some ([w ! p], p + 1)))"

section \<open>extractPreview and sanitizeHtml\<close>

text \<open>\<^verbatim>\<open>/<preview>([\s\S]*?)<\/preview>/g\<close>\<close>

definition preview_at :: "jsstring matcher" where
  "preview_at prev s =
     (if prefix (js ''<preview>'') s then
        (case find_sub (js ''</preview>'') (drop 9 s) of
           Some inner \<Rightarrow> Some (inner, 9 + length inner + 10)
         | None \<Rightarrow> None)
      else None)"

text \<open>\<^verbatim>\<open>extractPreview(content)\<close>: the preview and the content without the preview tags.\<close>

definition extractPreview :: "jsstring \<Rightarrow> jsstring \<times> jsstring" where
  "extractPreview content =
     (let preview = (case first_match preview_at None content of
                       Some inner \<Rightarrow> trim inner
                     | None \<Rightarrow> []);
          cleanContent = replace_all preview_at (\<lambda>g. []) None content
      in (preview, cleanContent))"

text \<open>
  \<^verbatim>\<open>/<script\b[^<]*(?:(?!<\/script>)<[^<]*)*<\/script>/gi\<close>: behind \<^verbatim>\<open><script\<close> and a word
  boundary the pattern walks from one \<^verbatim>\<open><\<close> to the next and stops at the first that begins
  \<^verbatim>\<open></script>\<close>, so the match ends with the first \<^verbatim>\<open></script>\<close> behind the opening.
\<close>

definition script_at :: "unit matcher" where
  "script_at prev s =
     (if prefix_ci (js ''<script'') s \<and> (case drop 7 s of [] \<Rightarrow> True | c # cs \<Rightarrow> \<not> is_word c) then
        (case find_sub_ci (js ''</script>'') (drop 7 s) of
           Some inner \<Rightarrow> Some ((), 7 + length inner + 9)
         | None \<Rightarrow> None)
      else None)"

text \<open>
  \<^verbatim>\<open>/\son\w+\s*=\s*["'][^"']*["']/gi\<close>: each greedy part takes its whole run, and no shorter
  run can be followed by what the pattern wants next.
\<close>

definition handler_at :: "unit matcher" where
  "handler_at prev s =
     (case s of
        w # o1 # n1 # r \<Rightarrow>
          if is_ws w \<and> ascii_upper o1 = 0x4F \<and> ascii_upper n1 = 0x4E then
            (let name = takeWhile is_word r; r1 = dropWhile is_word r;
                 ws1 = takeWhile is_ws r1; r2 = dropWhile is_ws r1 in
             if name = [] then None
             else (case r2 of
                     e # r3 \<Rightarrow>
                       if e = 0x3D then
                         (let ws2 = takeWhile is_ws r3; r4 = dropWhile is_ws r3 in
                          case r4 of
                            q1 # r5 \<Rightarrow>
                              if is_quote q1 then
                                (let v = takeWhile (\<lambda>c. \<not> is_quote c) r5 in
                                 if dropWhile (\<lambda>c. \<not> is_quote c) r5 = [] then None
                                 else Some ((), 3 + length name + length ws1 + 1 + length ws2
                                                + 1 + length v + 1))
                              else None
                          | [] \<Rightarrow> None)
                       else None
                   | [] \<Rightarrow> None))
          else None
      | _ \<Rightarrow> None)"

text \<open>\<^verbatim>\<open>/javascript:/gi\<close>\<close>

definition javascript_at :: "unit matcher" where
  "javascript_at prev s = (if prefix_ci (js ''javascript:'') s then Some ((), 11) else None)"

text \<open>\<^verbatim>\<open>sanitizeHtml(html)\<close>, with the same guard as \<^verbatim>\<open>escapeHtml\<close>.\<close>

definition sanitizeHtml :: "jsval \<Rightarrow> jsstring" where
  "sanitizeHtml html =
     (if falsy html \<or> \<not> is_string html then []
      else (case html of
              JString s \<Rightarrow>
                (let h1 = replace_all script_at (\<lambda>g. []) None s;
                     h2 = replace_all handler_at (\<lambda>g. []) None h1;
                     h3 = replace_all javascript_at (\<lambda>g. []) None h2
                 in h3)
            | _ \<Rightarrow> []))"

section \<open>parseCode\<close>

abbreviation BACKTICK :: cu where "BACKTICK \<equiv> 0x60"

text \<open>
  \<^verbatim>\<open>/```(\w*)\n([\s\S]*?)```/g\<close>: the language is the whole run of word characters, which a
  newline must follow; the code runs up to the next fence. Groups: language and code.
\<close>

definition codeBlock_at :: "(jsstring \<times> jsstring) matcher" where
  "codeBlock_at prev s =
     (if prefix (js ''```'') s then
        (let language = takeWhile is_word (drop 3 s) in
         case dropWhile is_word (drop 3 s) of
           n # r \<Rightarrow>
             if n = NL then
               (case find_sub (js ''```'') r of
                  Some code \<Rightarrow> Some ((language, code), 3 + length language + 1 + length code + 3)
                | None \<Rightarrow> None)
             else None
         | [] \<Rightarrow> None)
      else None)"

definition codeBlock_html :: "jsstring \<times> jsstring \<Rightarrow> jsstring" where
  \<open>codeBlock_html g =
     (case g of (language, code) \<Rightarrow>
        (let escapedCode = escapeHtml (JString (trim code));
             langClass = (if language \<noteq> [] then js '' language-'' @ language else [])
         in js ''<pre class="blog-code-block"><code class="blog-code'' @ langClass @ js ''">''
            @ escapedCode @ js ''</code></pre>''))\<close>

text \<open>\<^verbatim>\<open>/`([^`]+)`/g\<close>\<close>

definition code_at :: "jsstring matcher" where
  "code_at prev s =
     (case s of
        b # r \<Rightarrow>
          if b = BACKTICK then
            (let code = takeWhile (\<lambda>c. c \<noteq> BACKTICK) r in
             if code \<noteq> [] \<and> dropWhile (\<lambda>c. c \<noteq> BACKTICK) r \<noteq> []
             then Some (code, 1 + length code + 1) else None)
          else None
      | [] \<Rightarrow> None)"

definition code_html :: "jsstring \<Rightarrow> jsstring" where
  \<open>code_html code =
     js ''<code class="blog-inline-code">'' @ escapeHtml (JString code) @ js ''</code>''\<close>

definition parseCode :: "jsstring \<Rightarrow> jsstring" where
  "parseCode content =
     (let c1 = replace_all codeBlock_at codeBlock_html None content;
          c2 = replace_all code_at code_html None c1
      in c2)"

section \<open>parseHeadings\<close>

abbreviation HASH :: cu where "HASH \<equiv> 0x23"
abbreviation DASH :: cu where "DASH \<equiv> 0x2D"

text \<open>
  \<^verbatim>\<open>/^(#{1,6})\s+(.+)$/gm\<close>: the run of \<^verbatim>\<open>#\<close> must have 1 to 6 units, since white space has
  to follow the group. Groups: the hashes and the text.
\<close>

definition heading_at :: "(jsstring \<times> jsstring) matcher" where
  "heading_at prev s =
     (let hashes = takeWhile (\<lambda>c. c = HASH) s in
      if at_bol prev \<and> 1 \<le> length hashes \<and> length hashes \<le> 6 then
        (case ws_text_m (dropWhile (\<lambda>c. c = HASH) s) of
           Some (text, n) \<Rightarrow> Some ((hashes, text), length hashes + n)
         | None \<Rightarrow> None)
      else None)"

text \<open>
  \<^verbatim>\<open>text.toLowerCase()\<close> as far as the \<^verbatim>\<open>id\<close> needs it: for each unit, the units of its
  lower-case form, \<open>Some a\<close> for a unit \<open>a\<close> of \<^verbatim>\<open>[a-z0-9]\<close> and \<open>None\<close> for any other unit.
  Besides the ASCII letters, U+212A (Kelvin sign) becomes \<^verbatim>\<open>k\<close> and U+0130 becomes \<^verbatim>\<open>i\<close>
  followed by U+0307; no other unit has a lower-case form with a unit in \<^verbatim>\<open>[a-z0-9]\<close>.
\<close>

definition lower_alnum :: "cu \<Rightarrow> cu option list" where
  "lower_alnum c =
     (if (0x61 \<le> c \<and> c \<le> 0x7A) \<or> is_digit c then [Some c]
      else if 0x41 \<le> c \<and> c \<le> 0x5A then [Some (c + 0x20)]
      else if c = 0x212A then [Some 0x6B]
      else if c = 0x0130 then [Some 0x69, None]
      else [None])"

text \<open>\<^verbatim>\<open>.replace(/[^a-z0-9]+/g, '-')\<close>: every run of other units becomes one dash.\<close>

function dash_runs :: "cu option list \<Rightarrow> jsstring" where
  "dash_runs [] = []"
| "dash_runs (Some a # xs) = a # dash_runs xs"
| "dash_runs (None # xs) = DASH # dash_runs (dropWhile (\<lambda>x. x = None) xs)"
  by pat_completeness auto
termination
  by (relation "measure length") (auto intro: le_imp_less_Suc length_dropWhile_le)

text \<open>\<^verbatim>\<open>.replace(/^-|-$/g, '')\<close>: as for the quotes of a metadata value.\<close>

definition strip_dashes :: "jsstring \<Rightarrow> jsstring" where
  "strip_dashes v =
     (let v1 = (case v of [] \<Rightarrow> [] | c # cs \<Rightarrow> if c = DASH then cs else v)
      in if v1 \<noteq> [] \<and> last v1 = DASH then butlast v1 else v1)"

definition heading_id :: "jsstring \<Rightarrow> jsstring" where
  "heading_id text = strip_dashes (dash_runs (concat (map lower_alnum text)))"

text \<open>The decimal digit of a heading level, which is 1 to 6.\<close>

definition level_digit :: "nat \<Rightarrow> cu" where
  "level_digit n = 0x30 + of_nat n"

definition heading_html :: "jsstring \<times> jsstring \<Rightarrow> jsstring" where
  \<open>heading_html g =
     (case g of (hashes, text) \<Rightarrow>
        (let level = length hashes; id = heading_id text
         in js ''<h'' @ [level_digit level] @ js '' id="'' @ id @ js ''" class="blog-heading">''
            @ trim text @ js ''</h'' @ [level_digit level] @ js ''>''))\<close>

definition parseHeadings :: "jsstring \<Rightarrow> jsstring" where
  "parseHeadings content = replace_all heading_at heading_html None content"

section \<open>parseLinksAndImages\<close>

abbreviation BANG :: cu where "BANG \<equiv> 0x21"
abbreviation LBRACKET :: cu where "LBRACKET \<equiv> 0x5B"
abbreviation RBRACKET :: cu where "RBRACKET \<equiv> 0x5D"
abbreviation LPAREN :: cu where "LPAREN \<equiv> 0x28"
abbreviation RPAREN :: cu where "RPAREN \<equiv> 0x29"

text \<open>
  The part behind the opening bracket, common to the image pattern
  \<^verbatim>\<open>/!\[([^\]]*)\]\(([^)]+)\)/g\<close> and the link pattern \<^verbatim>\<open>/\[([^\]]+)\]\(([^)]+)\)/g\<close>: the text up
  to the next \<^verbatim>\<open>]\<close> (it may be empty for an image only), \<^verbatim>\<open>](\<close>, and the non-empty text up to
  the next \<^verbatim>\<open>)\<close>. Result: the two groups and the number of units matched.
\<close>

definition bracket_paren :: "bool \<Rightarrow> jsstring \<Rightarrow> (jsstring \<times> jsstring \<times> nat) option" where
  "bracket_paren empty_ok s =
     (let t = takeWhile (\<lambda>c. c \<noteq> RBRACKET) s in
      case dropWhile (\<lambda>c. c \<noteq> RBRACKET) s of
        rb # lp # r \<Rightarrow>
          if (t \<noteq> [] \<or> empty_ok) \<and> lp = LPAREN then
            (let u = takeWhile (\<lambda>c. c \<noteq> RPAREN) r in
             if u \<noteq> [] \<and> dropWhile (\<lambda>c. c \<noteq> RPAREN) r \<noteq> []
             then Some (t, u, length t + 2 + length u + 1) else None)
          else None
      | _ \<Rightarrow> None)"

definition image_at :: "(jsstring \<times> jsstring) matcher" where
  "image_at prev s =
     (case s of
        b # l # r \<Rightarrow>
          if b = BANG \<and> l = LBRACKET then
            (case bracket_paren True r of
               Some (alt, src, n) \<Rightarrow> Some ((alt, src), 2 + n)
             | None \<Rightarrow> None)
          else None
      | _ \<Rightarrow> None)"

definition image_html :: "jsstring \<times> jsstring \<Rightarrow> jsstring" where
  \<open>image_html g =
     (case g of (alt, src) \<Rightarrow>
        (let escapedAlt = escapeHtml (JString alt); escapedSrc = escapeHtml (JString src)
         in js ''<img src="'' @ escapedSrc @ js ''" alt="'' @ escapedAlt
            @ js ''" class="blog-image" loading="lazy">''))\<close>

definition link_at :: "(jsstring \<times> jsstring) matcher" where
  "link_at prev s =
     (case s of
        l # r \<Rightarrow>
          if l = LBRACKET then
            (case bracket_paren False r of
               Some (text, url, n) \<Rightarrow> Some ((text, url), 1 + n)
             | None \<Rightarrow> None)
          else None
      | [] \<Rightarrow> None)"

definition link_html :: "jsstring \<times> jsstring \<Rightarrow> jsstring" where
  \<open>link_html g =
     (case g of (text, url) \<Rightarrow>
        (let escapedText = escapeHtml (JString text); escapedUrl = escapeHtml (JString url);
             target = (if prefix (js ''http'') url
                       then js '' target="_blank" rel="noopener noreferrer"'' else [])
         in js ''<a href="'' @ escapedUrl @ js ''" class="blog-link"'' @ target @ js ''>''
            @ escapedText @ js ''</a>''))\<close>

text \<open>\<^verbatim>\<open>parseLinksAndImages(content)\<close>: the images first, then the links, on the result.\<close>

definition parseLinksAndImages :: "jsstring \<Rightarrow> jsstring" where
  "parseLinksAndImages content =
     (let c1 = replace_all image_at image_html None content;
          c2 = replace_all link_at link_html None c1
      in c2)"

section \<open>parseFormatting\<close>

abbreviation STAR :: cu where "STAR \<equiv> 0x2A"

text \<open>
  The lazy group \<^verbatim>\<open>(.*?)\<close> followed by a literal \<open>p\<close>: the group grows by one unit that is
  no line terminator until \<open>p\<close> follows.
\<close>

fun lazy_until :: "jsstring \<Rightarrow> jsstring \<Rightarrow> jsstring option" where
  "lazy_until p [] = (if p = [] then Some [] else None)"
| "lazy_until p (c # cs) =
     (if prefix p (c # cs) then Some []
      else if is_lt c then None
      else map_option ((#) c) (lazy_until p cs))"

text \<open>\<^verbatim>\<open>/\*\*(.*?)\*\*/g\<close> and \<^verbatim>\<open>/\*(.*?)\*/g\<close>\<close>

definition bold_at :: "jsstring matcher" where
  "bold_at prev s =
     (if prefix [STAR, STAR] s then
        (case lazy_until [STAR, STAR] (drop 2 s) of
           Some text \<Rightarrow> Some (text, 2 + length text + 2)
         | None \<Rightarrow> None)
      else None)"

definition italic_at :: "jsstring matcher" where
  "italic_at prev s =
     (if prefix [STAR] s then
        (case lazy_until [STAR] (drop 1 s) of
           Some text \<Rightarrow> Some (text, 1 + length text + 1)
         | None \<Rightarrow> None)
      else None)"

definition bold_html :: "jsstring \<Rightarrow> jsstring" where
  \<open>bold_html text = js ''<strong class="blog-bold">'' @ text @ js ''</strong>''\<close>

text \<open>
  The callback of the italic replacement counts the \<^verbatim>\<open><strong>\<close> tags in front of the
  match, but both branches of its test return the same string.
\<close>

definition italic_html :: "jsstring \<Rightarrow> jsstring" where
  \<open>italic_html text = js ''<em class="blog-italic">'' @ text @ js ''</em>''\<close>

definition parseFormatting :: "jsstring \<Rightarrow> jsstring" where
  "parseFormatting content =
     (let c1 = replace_all bold_at bold_html None content;
          c2 = replace_all italic_at italic_html None c1
      in c2)"

section \<open>parseBlockElements\<close>

text \<open>\<^verbatim>\<open>/^>\s+(.+)$/gm\<close> and \<^verbatim>\<open>/^---$/gm\<close>\<close>

definition blockquote_at :: "jsstring matcher" where
  "blockquote_at prev s =
     (case s of
        g # r \<Rightarrow>
          if at_bol prev \<and> g = GREATER then
            (case ws_text_m r of
               Some (text, n) \<Rightarrow> Some (text, 1 + n)
             | None \<Rightarrow> None)
          else None
      | [] \<Rightarrow> None)"

definition blockquote_html :: "jsstring \<Rightarrow> jsstring" where
  \<open>blockquote_html text =
     js ''<blockquote class="blog-blockquote">'' @ text @ js ''</blockquote>''\<close>

definition horizontalRule_at :: "unit matcher" where
  "horizontalRule_at prev s =
     (if at_bol prev \<and> prefix (js ''---'') s \<and> at_eol (drop 3 s) then Some ((), 3) else None)"

definition parseBlockElements :: "jsstring \<Rightarrow> jsstring" where
  \<open>parseBlockElements content =
     (let c1 = replace_all blockquote_at blockquote_html None content;
          c2 = replace_all horizontalRule_at (\<lambda>g. js ''<hr class="blog-hr">'') None c1
      in c2)\<close>

section \<open>parseParagraphs\<close>

text \<open>
  \<^verbatim>\<open>content.split(/\n\s*\n/)\<close>: a separator starts at a newline and ends, as \<open>ws_then_nl\<close>
  says, behind the last newline of the white space that follows. The pieces are the
  texts between the separators.
\<close>

function split_blank :: "jsstring \<Rightarrow> jsstring list" where
  "split_blank [] = [[]]"
| "split_blank (c # cs) =
     (case (if c = NL then ws_then_nl cs else None) of
        Some rest \<Rightarrow> [] # split_blank rest
      | None \<Rightarrow>
          (case split_blank cs of
             p # ps \<Rightarrow> (c # p) # ps
           | [] \<Rightarrow> [[c]]))"
  by pat_completeness auto
termination
proof (relation "measure length")
  fix c :: cu and cs rest
  assume "(if c = NL then ws_then_nl cs else None) = Some rest"
  then have r: "rest = rev (takeWhile (\<lambda>c. c \<noteq> NL) (rev (takeWhile is_ws cs))) @ dropWhile is_ws cs"
    by (auto simp: ws_then_nl_def Let_def split: if_splits)
  have "length rest \<le> length (takeWhile is_ws cs) + length (dropWhile is_ws cs)"
    unfolding r using length_takeWhile_le [of "\<lambda>c. c \<noteq> NL" "rev (takeWhile is_ws cs)"] by simp
  also have "\<dots> = length cs"
    by (metis length_append takeWhile_dropWhile_id)
  finally show "(rest, c # cs) \<in> measure length" by simp
qed simp_all

text \<open>The six tests for a section that is passed through unchanged.\<close>

definition starts_block :: "jsstring \<Rightarrow> bool" where
  "starts_block t =
     ((case t of
         c # r \<Rightarrow> c = LESS \<and> takeWhile (\<lambda>x. x \<noteq> GREATER) r \<noteq> []
                   \<and> dropWhile (\<lambda>x. x \<noteq> GREATER) r \<noteq> []
       | [] \<Rightarrow> False)
      \<or> (let hashes = takeWhile (\<lambda>c. c = HASH) t in
          1 \<le> length hashes \<and> length hashes \<le> 6
          \<and> (case dropWhile (\<lambda>c. c = HASH) t of c # r \<Rightarrow> is_ws c | [] \<Rightarrow> False))
      \<or> (case t of c # d # r \<Rightarrow> (c = DASH \<or> c = STAR \<or> c = 0x2B) \<and> is_ws d | _ \<Rightarrow> False)
      \<or> (takeWhile is_digit t \<noteq> []
          \<and> (case dropWhile is_digit t of c # d # r \<Rightarrow> c = 0x2E \<and> is_ws d | _ \<Rightarrow> False))
      \<or> (case t of c # d # r \<Rightarrow> c = GREATER \<and> is_ws d | _ \<Rightarrow> False)
      \<or> prefix (js ''```'') t)"

text \<open>The body of the loop over the sections; \<open>res\<close> is the array \<^verbatim>\<open>result\<close>.\<close>

definition paragraph_step :: "jsstring list \<Rightarrow> jsstring \<Rightarrow> jsstring list" where
  \<open>paragraph_step res section =
     (let trimmed = trim section in
      if trimmed = [] then res
      else if starts_block trimmed then res @ [trimmed]
      else res @ [js ''<p class="blog-paragraph">'' @ trimmed @ js ''</p>''])\<close>

definition parseParagraphs :: "jsstring \<Rightarrow> jsstring" where
  "parseParagraphs content = join [NL, NL] (foldl paragraph_step [] (split_blank content))"

section \<open>parse\<close>

text \<open>
  An exception is a value \<open>Error message\<close>; a function that can throw returns
  \<open>js_error + 'a\<close>, with \<open>Inl\<close> for the exception.
\<close>

datatype js_error = Error jsstring

text \<open>The record that \<^verbatim>\<open>parse\<close> returns; a metadata value is a string or an array.\<close>

record parse_result =
  metadata :: "jsstring \<rightharpoonup> jsval"
  preview :: jsstring
  content :: jsstring
  wordCount :: nat
  estimatedReadTime :: nat

text \<open>\<^verbatim>\<open>v || d\<close> for a property \<open>v\<close> that is a string or is missing (\<^verbatim>\<open>undefined\<close>).\<close>

definition or_default :: "jsstring option \<Rightarrow> jsstring \<Rightarrow> jsstring" where
  "or_default v d = (case v of Some s \<Rightarrow> if s \<noteq> [] then s else d | None \<Rightarrow> d)"

text \<open>
  The object literal of the \<^verbatim>\<open>return\<close> statement. The four named properties are written
  first; the spread \<^verbatim>\<open>...metadata\<close> comes last and writes every property of the parsed
  front matter over them. \<open>today\<close> is \<^verbatim>\<open>new Date().toISOString().split('T')[0]\<close>, the
  current UTC date.
\<close>

definition result_metadata :: "jsstring \<Rightarrow> (jsstring \<rightharpoonup> jsstring) \<Rightarrow> (jsstring \<rightharpoonup> jsval)" where
  "result_metadata today md =
     (let named =
        [js ''title'' \<mapsto> JString (or_default (md (js ''title'')) (js ''Untitled'')),
         js ''date'' \<mapsto> JString (or_default (md (js ''date'')) today),
         js ''author'' \<mapsto> JString (or_default (md (js ''author'')) (js ''Anonymous'')),
         js ''tags'' \<mapsto>
           (case md (js ''tags'') of
              Some t \<Rightarrow> if t \<noteq> [] then JArray (map (\<lambda>tag. JString (trim tag)) (split_on 0x2C t))
                        else JArray []
            | None \<Rightarrow> JArray [])]
      in named ++ (\<lambda>k. map_option JString (md k)))"

text \<open>
  The \<^verbatim>\<open>try\<close> block of \<^verbatim>\<open>parse\<close>, for a string \<open>rawContent\<close>. No stage throws, so the block
  always completes with the record.
\<close>

definition parse_try :: "jsstring \<Rightarrow> jsstring \<Rightarrow> js_error + parse_result" where
  "parse_try today rawContent =
     (case parseMetadata rawContent of (md, contentWithoutMeta) \<Rightarrow>
      case extractPreview contentWithoutMeta of (pv, contentWithoutPreview) \<Rightarrow>
        (let p0 = sanitizeHtml (JString contentWithoutPreview);
             p1 = parseCode p0;
             p2 = parseHeadings p1;
             p3 = parseLinksAndImages p2;
             p4 = parseFormatting p3;
             p5 = parseLists p4;
             p6 = parseBlockElements p5;
             processedContent = parseParagraphs p6;
             processedPreview =
               (if pv \<noteq> [] then
                  trim (parseLinksAndImages (parseFormatting (sanitizeHtml (JString pv))))
                else [])
         in Inr \<lparr>metadata = result_metadata today md,
                  preview = processedPreview,
                  content = trim processedContent,
                  wordCount = countWords processedContent,
                  estimatedReadTime = estimateReadTime processedContent\<rparr>))"

text \<open>
  The \<^verbatim>\<open>catch\<close> clause: an exception of the block is thrown again with its message
  wrapped.
\<close>

definition parse_catch :: "js_error + 'a \<Rightarrow> js_error + 'a" where
  "parse_catch r =
     (case r of
        Inl (Error message) \<Rightarrow> Inl (Error (js ''Failed to parse .col content: '' @ message))
      | Inr v \<Rightarrow> Inr v)"

definition invalid_input :: js_error where
  "invalid_input = Error (js ''Invalid input: content must be a non-empty string'')"

text \<open>
  \<^verbatim>\<open>parse(rawContent)\<close>, for any argument. The guard in front of the \<^verbatim>\<open>try\<close> block throws
  for a falsy argument and for one that is not a string.
\<close>

definition parse :: "jsstring \<Rightarrow> jsval \<Rightarrow> js_error + parse_result" where
  "parse today rawContent =
     (if falsy rawContent \<or> \<not> is_string rawContent then Inl invalid_input
      else (case rawContent of
              JString s \<Rightarrow> parse_catch (parse_try today s)
            | _ \<Rightarrow> Inl invalid_input))"

section \<open>Splitting, joining and counting\<close>

text \<open>Splitting at a separator and joining with it are inverse to each other.\<close>

lemma split_on_nonempty: "split_on d s \<noteq> []"
  by (induction s) (auto split: list.splits)

lemma split_on_append: "split_on d (a @ d # b) = split_on d a @ split_on d b"
  by (induction a) (auto split: list.splits simp: split_on_nonempty)

lemma split_on_no_sep: "d \<notin> set s \<Longrightarrow> split_on d s = [s]"
  by (induction s) auto

lemma join_split_on: "join [d] (split_on d s) = s"
proof (induction s)
  case Nil show ?case by simp
next
  case (Cons c cs)
  obtain p ps where e: "split_on d cs = p # ps" using split_on_nonempty [of d cs] by (cases "split_on d cs") auto
  with Cons show ?case by (cases ps) auto
qed

text \<open>
  Occurrences of a pattern add up over a concatenation when no occurrence can straddle
  the seam, which holds when the first unit behind the seam is not in the tail of the
  pattern.
\<close>

lemma prefix_append_clean:
  assumes "x \<noteq> []" "b = [] \<or> hd b \<notin> set (tl p)"
  shows "prefix p (x @ b) \<longleftrightarrow> prefix p x"
proof
  assume "prefix p (x @ b)"
  then have "prefix p x \<or> (\<exists>us. p = x @ us \<and> prefix us b)"
    by (simp add: prefix_append)
  then show "prefix p x"
  proof
    assume "\<exists>us. p = x @ us \<and> prefix us b"
    then obtain us where us: "p = x @ us" "prefix us b" by blast
    show ?thesis
    proof (cases us)
      case Nil
      with us show ?thesis by simp
    next
      case (Cons u us')
      with us have "b \<noteq> []" "hd b = u" by (auto simp: prefix_def)
      moreover have "u \<in> set (tl p)" using us Cons assms(1) by (cases x) auto
      ultimately show ?thesis using assms(2) by simp
    qed
  qed
next
  assume "prefix p x" then show "prefix p (x @ b)" by simp
qed

lemma count_sub_append:
  assumes "b = [] \<or> hd b \<notin> set (tl p)"
  shows "count_sub p (a @ b) = count_sub p a + count_sub p b"
proof (induction a)
  case Nil show ?case by simp
next
  case (Cons x xs)
  have "prefix p ((x # xs) @ b) \<longleftrightarrow> prefix p (x # xs)"
    by (rule prefix_append_clean) (use assms in auto)
  with Cons show ?case by simp
qed

lemma count_sub_suffix: "count_sub p b \<le> count_sub p (a @ b)"
  by (induction a) auto

lemma count_sub_join:
  assumes "p \<noteq> []" "NL \<notin> set p"
  shows "count_sub p (join [NL] ls) = count_lines p ls"
proof (induction "[NL]::jsstring" ls rule: join.induct)
  case (3 x y ys)
  have "count_sub p (x @ NL # join [NL] (y # ys)) = count_sub p x + count_sub p (NL # join [NL] (y # ys))"
    by (rule count_sub_append) (use assms in \<open>auto dest: list.set_sel(2)\<close>)
  moreover have "\<not> prefix p (NL # zs)" for zs using assms by (cases p) auto
  ultimately show ?case using 3 by (simp add: count_lines_def)
qed (simp_all add: count_lines_def)

text \<open>A trimmed string that is not empty begins and ends with a unit that is no white space.\<close>

lemma trim_ends:
  assumes "trim s \<noteq> []"
  shows "\<not> is_ws (hd (trim s))" "\<not> is_ws (last (trim s))"
proof -
  let ?d = "dropWhile is_ws s"
  let ?e = "dropWhile is_ws (rev ?d)"
  from assms have e: "?e \<noteq> []" by (simp add: trim_def)
  have d: "?d \<noteq> []"
  proof
    assume a: "?d = []"
    show False using e unfolding a by simp
  qed
  have "\<not> is_ws (hd ?e)" using e by (rule hd_dropWhile)
  then show "\<not> is_ws (last (trim s))" using e by (simp add: trim_def last_rev)
  have h: "\<not> is_ws (hd ?d)" using d by (rule hd_dropWhile)
  have "hd ?d \<in> set (rev ?d)" using d by simp
  then have "last ?e = last (rev ?d)" using h by (rule dropWhile_last)
  also have "\<dots> = hd ?d" using d by (simp add: last_rev)
  finally show "\<not> is_ws (hd (trim s))" using h e by (simp add: trim_def hd_rev)
qed

lemma trim_id: 
  assumes "s \<noteq> []" "\<not> is_ws (hd s)" "\<not> is_ws (last s)"
  shows "trim s = s"
proof -
  have 1: "dropWhile is_ws s = s" using assms by (simp add: dropWhile_eq_self_iff)
  have 2: "dropWhile is_ws (rev s) = rev s" using assms by (simp add: dropWhile_eq_self_iff hd_rev)
  show ?thesis by (simp add: trim_def 1 2)
qed

lemma trim_pad:
  assumes "s \<noteq> []" "trim s = s" "list_all is_ws w1" "list_all is_ws w2"
  shows "trim (w1 @ s @ w2) = s"
proof -
  have e: "\<not> is_ws (hd s)" "\<not> is_ws (last s)" using trim_ends [of s] assms by auto
  obtain c cs where s: "s = c # cs" using assms(1) by (cases s) auto
  have 1: "dropWhile is_ws (w1 @ s @ w2) = s @ w2"
    using assms(3) e(1) s by (simp add: list_all_iff dropWhile_append)
  have l: "last s \<in> set (rev s)" using assms(1) by simp
  have "dropWhile is_ws (rev (s @ w2)) = dropWhile is_ws (rev w2 @ rev s)" by simp
  also have "\<dots> = dropWhile is_ws (rev s)"
    using assms(4) by (simp add: list_all_iff dropWhile_append)
  also have "\<dots> = rev s"
    using assms(1) e(2) by (simp add: dropWhile_eq_self_iff hd_rev)
  finally show ?thesis by (simp add: trim_def 1)
qed

section \<open>Properties of escapeHtml\<close>

lemma escape_unit_clean:
  "LESS \<notin> set (escape_unit c) \<and> GREATER \<notin> set (escape_unit c)
   \<and> DQUOTE \<notin> set (escape_unit c) \<and> SQUOTE \<notin> set (escape_unit c)"
  by (simp add: escape_unit_def htmlEntities_def js_def)

text \<open>
  C9. \<^verbatim>\<open>escapeHtml\<close> is a total function of its argument; its result contains none of
  the characters \<^verbatim>\<open><\<close>, \<^verbatim>\<open>>\<close>, \<^verbatim>\<open>"\<close> and \<^verbatim>\<open>'\<close>; and for an argument that is not a string, is
  null or undefined, or is the empty string, the result is the empty string.
\<close>

theorem escapeHtml_safe:
  "set (escapeHtml v) \<inter> {LESS, GREATER, DQUOTE, SQUOTE} = {}
   \<and> ((\<not> is_string v \<or> v = JNull \<or> v = JUndefined \<or> v = JString []) \<longrightarrow> escapeHtml v = [])"
proof
  have "x \<notin> {LESS, GREATER, DQUOTE, SQUOTE}" if "x \<in> set (escapeHtml v)" for x
  proof (cases v)
    case (JString s)
    with that obtain c where "x \<in> set (escape_unit c)"
      by (auto simp: escapeHtml_def split: if_splits)
    with escape_unit_clean [of c] show ?thesis by auto
  qed (use that in \<open>simp_all add: escapeHtml_def\<close>)
  then show "set (escapeHtml v) \<inter> {LESS, GREATER, DQUOTE, SQUOTE} = {}" by blast
next
  show "(\<not> is_string v \<or> v = JNull \<or> v = JUndefined \<or> v = JString []) \<longrightarrow> escapeHtml v = []"
    by (auto simp: escapeHtml_def)
qed

theorem escapeHtml_safe_witness:
  \<open>set (escapeHtml (JString (js ''<a href="x">Tom & Jerry</a>''))) \<inter> {LESS, GREATER, DQUOTE, SQUOTE} = {}
   \<and> escapeHtml (JString (js ''<b>'')) = js ''&lt;b&gt;''
   \<and> escapeHtml (JNumber 7) = [] \<and> escapeHtml JNull = [] \<and> escapeHtml (JString []) = []\<close>
  using escapeHtml_safe [of \<open>JString (js ''<a href="x">Tom & Jerry</a>'')\<close>]
    escapeHtml_safe [of "JNumber 7"] escapeHtml_safe [of JNull] escapeHtml_safe [of "JString []"]
  by (simp add: escapeHtml_def escape_unit_def htmlEntities_def js_def)

section \<open>Properties of parseLists\<close>

text \<open>
  An ordered item starts with a digit, so the test for an unordered item, which comes
  first in the loop, fails on it. The text of an item is a suffix of its line.
\<close>

lemma ordered_not_unordered: "orderedMatch l = Some b \<Longrightarrow> unorderedMatch l = None"
  apply (auto simp: orderedMatch_def unorderedMatch_def Let_def split: list.splits if_splits)
  apply (auto simp: is_digit_def)
  done

lemma item_text_suffix: "item_text r = Some t \<Longrightarrow> suffix t r"
proof -
  assume a: "item_text r = Some t"
  have r: "r = takeWhile is_ws r @ dropWhile is_ws r" by simp
  show ?thesis
  proof (cases "dropWhile is_ws r = []")
    case False
    with a have "t = dropWhile is_ws r" by (auto simp: item_text_def Let_def split: if_splits)
    then show ?thesis using r by (metis suffixI)
  next
    case True
    with a have t: "t = [last (takeWhile is_ws r)]" and ne: "takeWhile is_ws r \<noteq> []"
      by (auto simp: item_text_def Let_def split: if_splits)
    from True have "r = takeWhile is_ws r" by (metis r append_Nil2)
    with ne have "r = butlast r @ [last r]" by simp
    then show ?thesis using t \<open>r = takeWhile is_ws r\<close> by (metis suffixI)
  qed
qed

lemma unorderedMatch_suffix: "unorderedMatch l = Some t \<Longrightarrow> suffix t l"
proof -
  assume a: "unorderedMatch l = Some t"
  then obtain m r where d: "dropWhile is_ws l = m # r" and i: "item_text r = Some t"
    by (auto simp: unorderedMatch_def split: list.splits if_splits)
  have "suffix r (m # r)" by (simp add: suffix_ConsI)
  moreover have "suffix (dropWhile is_ws l) l" by (rule suffix_dropWhile)
  ultimately show ?thesis using item_text_suffix [OF i] d by (metis suffix_order.trans)
qed

lemma orderedMatch_suffix: "orderedMatch l = Some t \<Longrightarrow> suffix t l"
proof -
  assume a: "orderedMatch l = Some t"
  then obtain m r where d: "dropWhile is_digit (dropWhile is_ws l) = m # r" and i: "item_text r = Some t"
    by (auto simp: orderedMatch_def Let_def split: list.splits if_splits)
  have "suffix r (m # r)" by (simp add: suffix_ConsI)
  moreover have "suffix (dropWhile is_digit (dropWhile is_ws l)) (dropWhile is_ws l)" by (rule suffix_dropWhile)
  moreover have "suffix (dropWhile is_ws l) l" by (rule suffix_dropWhile)
  ultimately show ?thesis using item_text_suffix [OF i] d by (metis suffix_order.trans)
qed

lemma tag_free_suffix: "suffix t l \<Longrightarrow> tag_free l \<Longrightarrow> tag_free t"
proof -
  assume "suffix t l" "tag_free l"
  then obtain a where "l = a @ t" by (auto simp: suffix_def)
  with \<open>tag_free l\<close> show ?thesis
    using count_sub_suffix [of _ t a] unfolding tag_free_def
    by (metis le_zero_eq)
qed

text \<open>The list tags in the lines that the loop writes by itself.\<close>

lemma wrapper_counts:
  "count_sub (js ''<ul'') ul_open = 1" "count_sub (js ''</ul>'') ul_open = 0"
  "count_sub (js ''<ol'') ul_open = 0" "count_sub (js ''</ol>'') ul_open = 0"
  "count_sub (js ''<ul'') ul_close = 0" "count_sub (js ''</ul>'') ul_close = 1"
  "count_sub (js ''<ol'') ul_close = 0" "count_sub (js ''</ol>'') ul_close = 0"
  "count_sub (js ''<ul'') ol_open = 0" "count_sub (js ''</ul>'') ol_open = 0"
  "count_sub (js ''<ol'') ol_open = 1" "count_sub (js ''</ol>'') ol_open = 0"
  "count_sub (js ''<ul'') ol_close = 0" "count_sub (js ''</ul>'') ol_close = 0"
  "count_sub (js ''<ol'') ol_close = 0" "count_sub (js ''</ol>'') ol_close = 1"
  by (simp_all add: js_def ul_open_def ul_close_def ol_open_def ol_close_def)

lemma list_item_count:
  assumes "p \<in> {js ''<ul'', js ''</ul>'', js ''<ol'', js ''</ol>''}"
  shows "count_sub p (list_item t) = count_sub p t"
proof -
  have 1: "count_sub p (t @ js ''</li>'') = count_sub p t + count_sub p (js ''</li>'')"
    by (rule count_sub_append) (use assms in \<open>auto simp: js_def\<close>)
  have 2: "count_sub p (js ''</li>'') = 0"
    using assms by (elim insertE emptyE; simp add: js_def)
  have 3: \<open>count_sub p (js ''<li class="blog-list-item">'' @ x) = count_sub p x\<close> for x
    using assms by (elim insertE emptyE; simp add: js_def)
  show ?thesis unfolding list_item_def using 1 2 3 by simp
qed

lemma tag_free_list_item: "tag_free t \<Longrightarrow> tag_free (list_item t)"
  by (simp add: tag_free_def list_item_count)

text \<open>Each push keeps the invariant \<open>lists_inv\<close>, and so does each iteration of the loop.\<close>

lemma count_lines_snoc: "count_lines p (r @ [x]) = count_lines p r + count_sub p x"
  by (simp add: count_lines_def)

lemma balanced_snoc:
  "balanced po pc (r @ [x]) \<longleftrightarrow>
     balanced po pc r \<and> count_lines pc (r @ [x]) \<le> count_lines po (r @ [x])"
proof
  assume b: "balanced po pc (r @ [x])"
  have "count_lines pc (take n r) \<le> count_lines po (take n r)" for n
    using b [unfolded balanced_def, rule_format, of "min n (length r)"]
    by (cases "n \<le> length r") (simp_all add: min_def)
  moreover have "count_lines pc (r @ [x]) \<le> count_lines po (r @ [x])"
    using b [unfolded balanced_def, rule_format, of "Suc (length r)"] by simp
  ultimately show "balanced po pc r \<and> count_lines pc (r @ [x]) \<le> count_lines po (r @ [x])"
    by (simp add: balanced_def)
next
  assume a: "balanced po pc r \<and> count_lines pc (r @ [x]) \<le> count_lines po (r @ [x])"
  show "balanced po pc (r @ [x])"
    unfolding balanced_def
  proof
    fix n
    show "count_lines pc (take n (r @ [x])) \<le> count_lines po (take n (r @ [x]))"
    proof (cases "n \<le> length r")
      case True
      then show ?thesis using a by (simp add: balanced_def)
    next
      case False
      then show ?thesis using a by simp
    qed
  qed
qed

lemma inv_plain: "lists_inv r u v \<Longrightarrow> tag_free x \<Longrightarrow> lists_inv (r @ [x]) u v"
  by (auto simp: lists_inv_def balanced_snoc count_lines_snoc tag_free_def)

lemma inv_ul_open: "lists_inv r False v \<Longrightarrow> lists_inv (r @ [ul_open]) True v"
  by (auto simp: lists_inv_def balanced_snoc count_lines_snoc wrapper_counts)

lemma inv_ul_close: "lists_inv r True v \<Longrightarrow> lists_inv (r @ [ul_close]) False v"
  by (auto simp: lists_inv_def balanced_snoc count_lines_snoc wrapper_counts)

lemma inv_ol_open: "lists_inv r u False \<Longrightarrow> lists_inv (r @ [ol_open]) u True"
  by (auto simp: lists_inv_def balanced_snoc count_lines_snoc wrapper_counts)

lemma inv_ol_close: "lists_inv r u True \<Longrightarrow> lists_inv (r @ [ol_close]) u False"
  by (auto simp: lists_inv_def balanced_snoc count_lines_snoc wrapper_counts)

lemma list_step_inv:
  assumes "state_inv st" "tag_free line"
  shows "state_inv (list_step st line)"
proof -
  from assms(1) have i: "lists_inv (result st) (inUnorderedList st) (inOrderedList st)"
    by (simp add: state_inv_def)
  show ?thesis
  proof (cases "unorderedMatch line")
    case (Some t)
    then have t: "tag_free (list_item t)"
      using assms(2) tag_free_suffix tag_free_list_item unorderedMatch_suffix by blast
    show ?thesis
    proof (cases "inUnorderedList st")
      case True
      with i have "lists_inv (result st @ [list_item t]) True (inOrderedList st)"
        using inv_plain t by simp
      with True Some show ?thesis by (simp add: state_inv_def list_step_def push_def)
    next
      case False
      note u = this
      show ?thesis
      proof (cases "inOrderedList st")
        case True
        with i u have "lists_inv (result st) False True" by simp
        from inv_plain [OF inv_ul_open [OF inv_ol_close [OF this]] t]
        show ?thesis using True u Some by (simp add: state_inv_def list_step_def push_def)
      next
        case False
        with i u have "lists_inv (result st) False False" by simp
        from inv_plain [OF inv_ul_open [OF this] t]
        show ?thesis using False u Some by (simp add: state_inv_def list_step_def push_def)
      qed
    qed
  next
    case None
    note n = this
    show ?thesis
    proof (cases "orderedMatch line")
      case (Some t)
      then have t: "tag_free (list_item t)"
        using assms(2) tag_free_suffix tag_free_list_item orderedMatch_suffix by blast
      show ?thesis
      proof (cases "inOrderedList st")
        case True
        with i have "lists_inv (result st @ [list_item t]) (inUnorderedList st) True"
          using inv_plain t by simp
        with True Some n show ?thesis by (simp add: state_inv_def list_step_def push_def)
      next
        case False
        note v = this
        show ?thesis
        proof (cases "inUnorderedList st")
          case True
          with i v have "lists_inv (result st) True False" by simp
          from inv_plain [OF inv_ol_open [OF inv_ul_close [OF this]] t]
          show ?thesis using True v Some n by (simp add: state_inv_def list_step_def push_def)
        next
          case False
          with i v have "lists_inv (result st) False False" by simp
          from inv_plain [OF inv_ol_open [OF this] t]
          show ?thesis using False v Some n by (simp add: state_inv_def list_step_def push_def)
        qed
      qed
    next
      case None
      show ?thesis
      proof (cases "inUnorderedList st"; cases "inOrderedList st")
        assume a: "inUnorderedList st" "inOrderedList st"
        with i have "lists_inv (result st) True True" by simp
        from inv_plain [OF inv_ol_close [OF inv_ul_close [OF this]] assms(2)]
        show ?thesis using a n None by (simp add: state_inv_def list_step_def push_def)
      next
        assume a: "inUnorderedList st" "\<not> inOrderedList st"
        with i have "lists_inv (result st) True False" by simp
        from inv_plain [OF inv_ul_close [OF this] assms(2)]
        show ?thesis using a n None by (simp add: state_inv_def list_step_def push_def)
      next
        assume a: "\<not> inUnorderedList st" "inOrderedList st"
        with i have "lists_inv (result st) False True" by simp
        from inv_plain [OF inv_ol_close [OF this] assms(2)]
        show ?thesis using a n None by (simp add: state_inv_def list_step_def push_def)
      next
        assume a: "\<not> inUnorderedList st" "\<not> inOrderedList st"
        with i have "lists_inv (result st) False False" by simp
        from inv_plain [OF this assms(2)]
        show ?thesis using a n None by (simp add: state_inv_def list_step_def push_def)
      qed
    qed
  qed
qed

lemma foldl_list_step_inv:
  "state_inv st \<Longrightarrow> \<forall>l \<in> set ls. tag_free l \<Longrightarrow> state_inv (foldl list_step st ls)"
  by (induction ls arbitrary: st) (auto simp: list_step_inv)

lemma list_finish_inv:
  assumes "state_inv st"
  shows "lists_inv (list_finish st) False False"
proof -
  from assms have i: "lists_inv (result st) (inUnorderedList st) (inOrderedList st)"
    by (simp add: state_inv_def)
  show ?thesis
  proof (cases "inUnorderedList st"; cases "inOrderedList st")
    assume a: "inUnorderedList st" "inOrderedList st"
    with i have "lists_inv (result st) True True" by simp
    from inv_ol_close [OF inv_ul_close [OF this]]
    show ?thesis using a by (simp add: list_finish_def)
  next
    assume a: "inUnorderedList st" "\<not> inOrderedList st"
    with i have "lists_inv (result st) True False" by simp
    from inv_ul_close [OF this]
    show ?thesis using a by (simp add: list_finish_def)
  next
    assume a: "\<not> inUnorderedList st" "inOrderedList st"
    with i have "lists_inv (result st) False True" by simp
    from inv_ol_close [OF this]
    show ?thesis using a by (simp add: list_finish_def)
  next
    assume a: "\<not> inUnorderedList st" "\<not> inOrderedList st"
    with i show ?thesis by (simp add: list_finish_def)
  qed
qed

lemma tag_free_lines:
  assumes "tag_free s"
  shows "\<forall>l \<in> set (split_on NL s). tag_free l"
proof -
  have "count_lines p (split_on NL s) = count_sub p s" if "p \<noteq> []" "NL \<notin> set p" for p
    using count_sub_join [OF that, of "split_on NL s"] by (simp add: join_split_on)
  then have "count_lines p (split_on NL s) = 0"
    if "p \<in> {js ''<ul'', js ''</ul>'', js ''<ol'', js ''</ol>''}" for p
    using that assms by (auto simp: tag_free_def js_def)
  then show ?thesis
    by (auto simp: tag_free_def count_lines_def)
qed

lemma parseLists_lines_inv: "tag_free s \<Longrightarrow> lists_inv (parseLists_lines s) False False"
  unfolding parseLists_lines_def
  by (intro list_finish_inv foldl_list_step_inv tag_free_lines)
     (simp_all add: state_inv_def list_init_def lists_inv_def balanced_def count_lines_def)

text \<open>The two flags are never set together.\<close>

lemma list_step_exclusive:
  assumes "\<not> (inUnorderedList st \<and> inOrderedList st)"
  shows "\<not> (inUnorderedList (list_step st l) \<and> inOrderedList (list_step st l))"
  using assms by (auto simp: list_step_def push_def Let_def split: option.splits)

lemma foldl_list_step_exclusive:
  assumes "\<not> (inUnorderedList st \<and> inOrderedList st)"
  shows "\<not> (inUnorderedList (foldl list_step st ls) \<and> inOrderedList (foldl list_step st ls))"
  using assms
proof (induction ls arbitrary: st)
  case Nil
  then show ?case by simp
next
  case (Cons l ls)
  from Cons.IH [OF list_step_exclusive [OF Cons.prems]] show ?case by simp
qed

text \<open>
  C6. An unordered-list line directly followed by an ordered-list line gives a closed
  \<^verbatim>\<open><ul>\<close> before the opened \<^verbatim>\<open><ol>\<close>: the output is one complete unordered list followed by
  one complete ordered list (and the other way round when the ordered line comes first).
  After any preceding lines, the second line of such a pair pushes the closing tag of
  the first list, the opening tag of the second and its item, in this order.
\<close>

theorem parseLists_type_switch:
  assumes "NL \<notin> set u" "NL \<notin> set v"
    and "unorderedMatch u = Some a" "orderedMatch v = Some b"
  shows "parseLists (u @ NL # v) =
           join [NL] [ul_open, list_item a, ul_close, ol_open, list_item b, ol_close]
       \<and> parseLists (v @ NL # u) =
           join [NL] [ol_open, list_item b, ol_close, ul_open, list_item a, ul_close]
       \<and> (\<forall>ls. result (foldl list_step list_init (ls @ [u, v])) =
                 result (foldl list_step list_init (ls @ [u])) @ [ul_close, ol_open, list_item b])
       \<and> (\<forall>ls. result (foldl list_step list_init (ls @ [v, u])) =
                 result (foldl list_step list_init (ls @ [v])) @ [ol_close, ul_open, list_item a])"
proof -
  note n = ordered_not_unordered [OF assms(4)]
  have 1: "parseLists (u @ NL # v) =
      join [NL] [ul_open, list_item a, ul_close, ol_open, list_item b, ol_close]"
    using assms n
    by (simp add: parseLists_def parseLists_lines_def split_on_append split_on_no_sep
        list_step_def list_init_def list_finish_def push_def)
  have 2: "parseLists (v @ NL # u) =
      join [NL] [ol_open, list_item b, ol_close, ul_open, list_item a, ul_close]"
    using assms n
    by (simp add: parseLists_def parseLists_lines_def split_on_append split_on_no_sep
        list_step_def list_init_def list_finish_def push_def)
  have e: "\<not> (inUnorderedList (foldl list_step list_init ls)
      \<and> inOrderedList (foldl list_step list_init ls))" for ls
    by (rule foldl_list_step_exclusive) (simp add: list_init_def)
  have 3: "result (foldl list_step list_init (ls @ [u, v])) =
      result (foldl list_step list_init (ls @ [u])) @ [ul_close, ol_open, list_item b]" for ls
    using assms n e [of ls] by (auto simp: list_step_def push_def Let_def)
  have 4: "result (foldl list_step list_init (ls @ [v, u])) =
      result (foldl list_step list_init (ls @ [v])) @ [ol_close, ul_open, list_item a]" for ls
    using assms n e [of ls] by (auto simp: list_step_def push_def Let_def)
  from 1 2 3 4 show ?thesis by blast
qed

theorem parseLists_type_switch_witness:
  \<open>parseLists (js ''- a'' @ NL # js ''1. b'') =
     join [NL] [js ''<ul class="blog-list">'', js ''<li class="blog-list-item">a</li>'',
                js ''</ul>'', js ''<ol class="blog-list blog-ordered-list">'',
                js ''<li class="blog-list-item">b</li>'', js ''</ol>'']\<close>
proof -
  have "NL \<notin> set (js ''- a'')" "NL \<notin> set (js ''1. b'')"
    by (simp_all add: js_def)
  moreover have "unorderedMatch (js ''- a'') = Some (js ''a'')"
    by (simp add: unorderedMatch_def item_text_def is_ws_def is_lt_def js_def)
  moreover have "orderedMatch (js ''1. b'') = Some (js ''b'')"
    by (simp add: orderedMatch_def item_text_def is_ws_def is_lt_def is_digit_def js_def)
  ultimately show ?thesis
    using parseLists_type_switch [of "js ''- a''" "js ''1. b''" "js ''a''" "js ''b''"]
    by (simp add: ul_open_def ul_close_def ol_open_def ol_close_def list_item_def js_def)
qed

text \<open>
  C10, as stated, fails: a line that is not a list item is passed through unchanged, so a
  list tag written in the input reaches the output without its partner.
\<close>

theorem parseLists_balanced_counterexample:
  "count_sub (js ''<ul'') (parseLists (js ''</ul>'')) = 0
   \<and> count_sub (js ''</ul>'') (parseLists (js ''</ul>'')) = 1"
  by (simp add: parseLists_def parseLists_lines_def list_step_def list_init_def
      list_finish_def push_def unorderedMatch_def orderedMatch_def Let_def is_ws_def
      is_digit_def js_def)

text \<open>
  C10, amended. For every input string in which none of \<^verbatim>\<open><ul\<close>, \<^verbatim>\<open></ul>\<close>, \<^verbatim>\<open><ol\<close> and
  \<^verbatim>\<open></ol>\<close> occurs, the output of \<^verbatim>\<open>parseLists\<close> contains as many \<^verbatim>\<open><ul\<close> as \<^verbatim>\<open></ul>\<close> and as
  many \<^verbatim>\<open><ol\<close> as \<^verbatim>\<open></ol>\<close>, and in every prefix of the emitted line sequence the closing
  tags of a type are at most as many as its opening tags: every list that the
  transformer opens it also closes, a list still open at the end of input included.
\<close>

theorem parseLists_balanced:
  assumes "tag_free doc"
  shows "count_sub (js ''<ul'') (parseLists doc) = count_sub (js ''</ul>'') (parseLists doc)
       \<and> count_sub (js ''<ol'') (parseLists doc) = count_sub (js ''</ol>'') (parseLists doc)
       \<and> (\<forall>n. count_lines (js ''</ul>'') (take n (parseLists_lines doc))
               \<le> count_lines (js ''<ul'') (take n (parseLists_lines doc)))
       \<and> (\<forall>n. count_lines (js ''</ol>'') (take n (parseLists_lines doc))
               \<le> count_lines (js ''<ol'') (take n (parseLists_lines doc)))"
proof -
  note i = parseLists_lines_inv [OF assms, unfolded lists_inv_def]
  have j: "count_sub p (parseLists doc) = count_lines p (parseLists_lines doc)"
    if "p \<in> {js ''<ul'', js ''</ul>'', js ''<ol'', js ''</ol>''}" for p
    unfolding parseLists_def by (rule count_sub_join) (use that in \<open>auto simp: js_def\<close>)
  have "count_sub (js ''<ul'') (parseLists doc) = count_sub (js ''</ul>'') (parseLists doc)"
    using i j by simp
  moreover
  have "count_sub (js ''<ol'') (parseLists doc) = count_sub (js ''</ol>'') (parseLists doc)"
    using i j by simp
  moreover
  have "count_lines (js ''</ul>'') (take n (parseLists_lines doc))
           \<le> count_lines (js ''<ul'') (take n (parseLists_lines doc))" for n
    using i by (simp add: balanced_def)
  moreover
  have "count_lines (js ''</ol>'') (take n (parseLists_lines doc))
           \<le> count_lines (js ''<ol'') (take n (parseLists_lines doc))" for n
    using i by (simp add: balanced_def)
  ultimately show ?thesis by blast
qed

theorem parseLists_balanced_witness:
  "tag_free (js ''- a'' @ NL # js ''1. b'')
   \<and> count_sub (js ''<ul'') (parseLists (js ''- a'' @ NL # js ''1. b'')) = 1
   \<and> count_sub (js ''</ul>'') (parseLists (js ''- a'' @ NL # js ''1. b'')) = 1"
proof -
  have t: "tag_free (js ''- a'' @ NL # js ''1. b'')"
    by (simp add: tag_free_def js_def)
  have "count_sub (js ''<ul'') (parseLists (js ''- a'' @ NL # js ''1. b'')) = 1"
    by (simp add: parseLists_def parseLists_lines_def list_step_def list_init_def
      list_finish_def push_def unorderedMatch_def orderedMatch_def item_text_def Let_def
      is_ws_def is_lt_def is_digit_def ul_open_def ul_close_def ol_open_def ol_close_def
      list_item_def js_def)
  with t parseLists_balanced [OF t] show ?thesis by simp
qed

section \<open>Properties of the metrics\<close>

text \<open>
  On a string that begins and ends with a unit that is no white space, the pieces of
  \<^verbatim>\<open>split(/\s+/)\<close> are the words.
\<close>

lemma words_of_skip: "spec_words (dropWhile is_ws s) = spec_words s"
  by (subst (1 2) spec_words.simps) simp

lemma words_of_ws_Cons: "is_ws w \<Longrightarrow> spec_words (w # r) = spec_words r"
  using words_of_skip [of "w # r"] words_of_skip [of r] by simp

lemma split_ws_words_of:
  "s \<noteq> [] \<Longrightarrow> \<not> is_ws (hd s) \<Longrightarrow> \<not> is_ws (last s) \<Longrightarrow> split_ws s = spec_words s"
proof (induction s rule: split_ws.induct)
  case (1 s)
  from "1.prems" obtain c r where s: "s = c # r" and c: "\<not> is_ws c" by (cases s) auto
  have w: "spec_words s = (c # takeWhile (\<lambda>c. \<not> is_ws c) r) # spec_words (dropWhile (\<lambda>c. \<not> is_ws c) r)"
    by (subst spec_words.simps) (simp add: s c)
  show ?case
  proof (cases "dropWhile (\<lambda>c. \<not> is_ws c) s")
    case Nil
    then have a: "\<forall>x\<in>set r. \<not> is_ws x" by (simp add: s c)
    have d0: "dropWhile (\<lambda>c. \<not> is_ws c) r = []" using a by simp
    have t0: "takeWhile (\<lambda>c. \<not> is_ws c) r = r" using a by (simp add: takeWhile_eq_all_conv)
    have w0: "spec_words [] = []" by (subst spec_words.simps) simp
    have "split_ws s = [s]" by (subst split_ws.simps) (simp add: Nil)
    then show ?thesis unfolding w d0 t0 w0 by (simp add: s)
  next
    case (Cons x r')
    let ?s' = "dropWhile is_ws r'"
    have x: "is_ws x" using hd_dropWhile [of "\<lambda>c. \<not> is_ws c" s] Cons by simp
    have sp: "split_ws s = takeWhile (\<lambda>c. \<not> is_ws c) s # split_ws ?s'"
      by (subst split_ws.simps) (simp add: Cons)
    have dr: "dropWhile (\<lambda>c. \<not> is_ws c) r = x # r'" using Cons by (simp add: s c)
    have ls: "last s \<in> set (x # r')"
    proof -
      have "s = takeWhile (\<lambda>c. \<not> is_ws c) s @ x # r'" using Cons by (metis takeWhile_dropWhile_id)
      then have "last s = last (x # r')" by (metis last_appendR list.distinct(1))
      then show ?thesis by (metis last_in_set list.distinct(1))
    qed
    have lx: "last s \<in> set r'" using ls x "1.prems"(3) by auto
    have l1: "last (x # r') = last s"
    proof -
      have "s = takeWhile (\<lambda>c. \<not> is_ws c) s @ x # r'" using Cons by (metis takeWhile_dropWhile_id)
      then show ?thesis by (metis last_appendR list.distinct(1))
    qed
    have l2: "last ?s' = last r'" using lx "1.prems"(3) by (rule dropWhile_last)
    have ne: "?s' \<noteq> []" using lx "1.prems"(3) by auto
    have "r' \<noteq> []" using lx by auto
    then have l3: "last ?s' = last s" using l1 l2 by simp
    have "split_ws ?s' = spec_words ?s'"
      using "1.IH" [OF Cons ne] hd_dropWhile [OF ne] l3 "1.prems"(3) by simp
    then show ?thesis using sp w dr s c words_of_ws_Cons [OF x, of r'] words_of_skip [of r'] by simp
  qed
qed

text \<open>What \<open>strip_tags\<close> returns holds no tag any more.\<close>

lemma strip_tags_subset: "set (strip_tags s) \<subseteq> set s"
proof (induction s rule: strip_tags.induct)
  case 1 show ?case by simp
next
  case (2 c cs)
  have "set (tl (dropWhile (\<lambda>x. x \<noteq> GREATER) cs)) \<subseteq> set cs"
    by (metis list.set_sel(2) set_dropWhileD subsetI tl_Nil)
  with 2 show ?case by auto
qed

lemma has_tag_Cons: "has_tag (c # s) \<longleftrightarrow> (c = LESS \<and> GREATER \<in> set s) \<or> has_tag s"
proof
  assume "has_tag (c # s)"
  then obtain a b d where e: "c # s = a @ LESS # b @ GREATER # d" by (auto simp: has_tag_def)
  show "(c = LESS \<and> GREATER \<in> set s) \<or> has_tag s"
  proof (cases a)
    case Nil with e show ?thesis by auto
  next
    case (Cons x xs) with e have "s = xs @ LESS # b @ GREATER # d" by simp
    then show ?thesis by (auto simp: has_tag_def)
  qed
next
  assume "(c = LESS \<and> GREATER \<in> set s) \<or> has_tag s"
  then show "has_tag (c # s)"
  proof
    assume a: "c = LESS \<and> GREATER \<in> set s"
    then obtain b d where "s = b @ GREATER # d" by (meson split_list)
    with a have "c # s = [] @ LESS # b @ GREATER # d" by simp
    then show ?thesis unfolding has_tag_def by blast
  next
    assume "has_tag s"
    then obtain a b d where "s = a @ LESS # b @ GREATER # d" by (auto simp: has_tag_def)
    then have "c # s = (c # a) @ LESS # b @ GREATER # d" by simp
    then show ?thesis unfolding has_tag_def by blast
  qed
qed

lemma strip_tags_no_tag: "\<not> has_tag (strip_tags s)"
proof (induction s rule: strip_tags.induct)
  case 1 show ?case by (simp add: has_tag_def)
next
  case (2 c cs)
  show ?case
  proof (cases "c = LESS \<and> GREATER \<in> set cs")
    case True with 2 show ?thesis by simp
  next
    case False
    with 2 have "\<not> has_tag (strip_tags cs)" by simp
    moreover have "\<not> (c = LESS \<and> GREATER \<in> set (strip_tags cs))"
      using False strip_tags_subset [of cs] by auto
    moreover have "strip_tags (c # cs) = c # strip_tags cs" using False by auto
    ultimately show ?thesis by (simp only: has_tag_Cons) simp
  qed
qed

text \<open>The ceiling of the quotient, in natural numbers.\<close>

lemma ceil_200: "nat \<lceil>real n / 200\<rceil> = (n + 199) div 200"
proof -
  define m where "m = (n + 199) div 200"
  have 1: "200 * m \<le> n + 199" and 2: "n + 199 < 200 * m + 200"
    unfolding m_def by arith+
  have r1: "real (200 * m) \<le> real (n + 199)" using 1 by (simp only: of_nat_le_iff)
  have 3: "n \<le> 200 * m" using 2 by arith
  have r2: "real n \<le> real (200 * m)" using 3 by (simp only: of_nat_le_iff)
  have "\<lceil>real n / 200\<rceil> = int m"
  proof (rule ceiling_unique)
    show "of_int (int m) - 1 < real n / 200" using r1 by simp
    show "real n / 200 \<le> of_int (int m)" using r2 by simp
  qed
  then show ?thesis by (simp add: m_def)
qed

text \<open>
  C8. \<^verbatim>\<open>countWords\<close> is the number of white-space separated words of the content after
  all tags are stripped (no tag is left) and the result is trimmed; it is 0 when nothing
  is left, in particular for the empty content. \<^verbatim>\<open>estimateReadTime\<close> is the maximum of 1
  and the ceiling of the word count divided by 200, so it is never less than 1.
\<close>

theorem countWords_estimateReadTime:
  "countWords doc = length (spec_words (trim (strip_tags doc)))
   \<and> \<not> has_tag (strip_tags doc)
   \<and> (trim (strip_tags doc) = [] \<longrightarrow> countWords doc = 0)
   \<and> countWords [] = 0
   \<and> int (estimateReadTime doc) = max 1 \<lceil>real (countWords doc) / 200\<rceil>
   \<and> estimateReadTime doc = max 1 ((countWords doc + 199) div 200)
   \<and> 1 \<le> estimateReadTime doc"
proof -
  let ?t = "trim (strip_tags doc)"
  have w0: "spec_words [] = []" by (subst spec_words.simps) simp
  have 1: "countWords doc = length (spec_words ?t)"
  proof (cases "?t = []")
    case True
    then show ?thesis by (simp add: countWords_def w0)
  next
    case False
    then have "split_ws ?t = spec_words ?t"
      using trim_ends [OF False] by (intro split_ws_words_of)
    with False show ?thesis by (simp add: countWords_def)
  qed
  have 2: "?t = [] \<longrightarrow> countWords doc = 0" by (simp add: countWords_def)
  have 3: "countWords [] = 0" by (simp add: countWords_def trim_def)
  have 4: "estimateReadTime doc = max 1 ((countWords doc + 199) div 200)"
    by (simp add: estimateReadTime_def ceil_200)
  have "\<lceil>real (countWords doc) / 200\<rceil> = int ((countWords doc + 199) div 200)"
    using ceil_200 [of "countWords doc"]
    by (metis ceiling_mono ceiling_zero divide_nonneg_nonneg nat_0_le of_nat_0_le_iff
        zero_le_numeral)
  then have 5: "int (estimateReadTime doc) = max 1 \<lceil>real (countWords doc) / 200\<rceil>"
    using 4 by simp
  have 6: "1 \<le> estimateReadTime doc" by (simp add: estimateReadTime_def)
  from 1 2 3 4 5 6 strip_tags_no_tag [of doc] show ?thesis by blast
qed

theorem countWords_estimateReadTime_witness:
  \<open>countWords (js ''<p class="x">Hello  brave <b>new</b> world</p>'') = 4
   \<and> spec_words (trim (strip_tags (js ''<p class="x">Hello  brave <b>new</b> world</p>'')))
       = [js ''Hello'', js ''brave'', js ''new'', js ''world'']
   \<and> estimateReadTime (js ''<p class="x">Hello  brave <b>new</b> world</p>'') = 1\<close>
  using countWords_estimateReadTime [of \<open>js ''<p class="x">Hello  brave <b>new</b> world</p>''\<close>]
  by (simp add: js_def trim_def is_ws_def spec_words.simps)

section \<open>Properties of parseMetadata\<close>

text \<open>
  A match of the front-matter pattern shows a closing delimiter in the document: a
  newline, \<^verbatim>\<open>---\<close>, white space and a newline. The line that starts with this \<^verbatim>\<open>---\<close> is a
  delimiter line, and it is not the first line.
\<close>

lemma ws_then_nl_shape:
  assumes "ws_then_nl r = Some rest"
  shows "\<exists>w1. list_all is_ws w1 \<and> r = w1 @ NL # rest"
proof -
  let ?w = "takeWhile is_ws r"
  from assms have n: "NL \<in> set ?w"
    and rest: "rest = rev (takeWhile (\<lambda>c. c \<noteq> NL) (rev ?w)) @ dropWhile is_ws r"
    by (auto simp: ws_then_nl_def Let_def split: if_splits)
  let ?t = "takeWhile (\<lambda>c. c \<noteq> NL) (rev ?w)"
  let ?d = "dropWhile (\<lambda>c. c \<noteq> NL) (rev ?w)"
  have "?d \<noteq> []" using n by auto
  moreover have "hd ?d = NL" using hd_dropWhile [OF \<open>?d \<noteq> []\<close>] by simp
  ultimately obtain d' where d: "?d = NL # d'" by (cases ?d) auto
  have "rev ?w = ?t @ NL # d'" using d by (metis takeWhile_dropWhile_id)
  then have w: "?w = rev d' @ NL # rev ?t" by (metis rev_rev_ident rev_append rev.simps(2) append.assoc append_Cons append_Nil)
  have "set (rev d') \<subseteq> set ?w" by (subst w) auto
  then have "list_all is_ws (rev d')" by (auto simp: list_all_iff dest: set_takeWhileD)
  moreover have "r = rev d' @ NL # rest"
  proof -
    have "r = ?w @ dropWhile is_ws r" by simp
    also have "\<dots> = (rev d' @ NL # rev ?t) @ dropWhile is_ws r" using w by simp
    finally show ?thesis using rest by simp
  qed
  ultimately show ?thesis by blast
qed

lemma find_close_shape:
  "find_close s = Some (g, rest) \<Longrightarrow>
     \<exists>w1. list_all is_ws w1 \<and> s = g @ NL # js ''---'' @ w1 @ NL # rest"
proof (induction s arbitrary: g)
  case Nil
  then show ?case by simp
next
  case (Cons c cs)
  show ?case
  proof (cases "prefix (NL # js ''---'') (c # cs) \<and> ws_then_nl (drop 4 (c # cs)) \<noteq> None")
    case True
    then obtain rest' where r: "ws_then_nl (drop 4 (c # cs)) = Some rest'" by auto
    with True Cons.prems have g: "g = []" "rest' = rest" by auto
    from True obtain z where z: "c # cs = (NL # js ''---'') @ z" by (auto simp: prefix_def)
    then have "drop 4 (c # cs) = z" by (simp add: js_def)
    with r g ws_then_nl_shape obtain w1 where "list_all is_ws w1" "z = w1 @ NL # rest" by blast
    with z g show ?thesis by auto
  next
    case False
    then have "(if prefix (NL # js ''---'') (c # cs) then ws_then_nl (drop 4 (c # cs)) else None) = None"
      by auto
    with Cons.prems obtain g' where "find_close cs = Some (g', rest)" "g = c # g'"
      by (auto split: option.splits)
    with Cons.IH [of g'] show ?thesis by auto
  qed
qed

lemma first_some_Some: "first_some f ks = Some y \<Longrightarrow> \<exists>k \<in> set ks. f k = Some y"
  by (induction ks) (auto split: option.splits)

lemma metadata_match_shape:
  assumes "metadata_match doc = Some (g, rest)"
  shows "\<exists>a w1. list_all is_ws w1 \<and> doc = a @ NL # js ''---'' @ w1 @ NL # rest"
proof -
  from assms have p: "prefix (js ''---'') doc" by (auto simp: metadata_match_def split: if_splits)
  let ?r = "drop 3 doc"
  from assms p obtain k where "find_close (drop (Suc k) ?r) = Some (g, rest)"
    by (auto simp: metadata_match_def Let_def dest!: first_some_Some)
  then obtain w1 where w: "list_all is_ws w1" "drop (Suc k) ?r = g @ NL # js ''---'' @ w1 @ NL # rest"
    using find_close_shape by blast
  have "doc = take 3 doc @ take (Suc k) ?r @ drop (Suc k) ?r"
    by (simp only: append_take_drop_id)
  with w(2) have "doc = (take 3 doc @ take (Suc k) ?r @ g) @ NL # js ''---'' @ w1 @ NL # rest"
    by simp
  with w(1) show ?thesis by blast
qed

lemma closing_line_exists:
  assumes "list_all is_ws w1" "doc = a @ NL # js ''---'' @ w1 @ NL # rest"
  shows "list_ex is_delimiter_line (tl (split_on NL doc))"
proof -
  let ?w2 = "takeWhile (\<lambda>c. c \<noteq> NL) w1"
  let ?l = "js ''---'' @ ?w2"
  have "\<exists>b. js ''---'' @ w1 @ NL # rest = ?l @ NL # b"
  proof (cases "NL \<in> set w1")
    case False
    then have "\<forall>x\<in>set w1. x \<noteq> NL" by auto
    then have e: "?w2 = w1" by (simp only: takeWhile_eq_all_conv)
    show ?thesis unfolding e by simp
  next
    case True
    then have "dropWhile (\<lambda>c. c \<noteq> NL) w1 \<noteq> []" by auto
    then obtain d' where "dropWhile (\<lambda>c. c \<noteq> NL) w1 = NL # d'"
      using hd_dropWhile [of "\<lambda>c. c \<noteq> NL" w1] by (cases "dropWhile (\<lambda>c. c \<noteq> NL) w1") auto
    then have "w1 = ?w2 @ NL # d'" by (metis takeWhile_dropWhile_id)
    then have "js ''---'' @ w1 @ NL # rest = ?l @ NL # (d' @ NL # rest)" by (metis append.assoc append_Cons)
    then show ?thesis by blast
  qed
  then obtain b where b: "js ''---'' @ w1 @ NL # rest = ?l @ NL # b" by blast
  have nl: "NL \<notin> set ?l" by (auto simp: js_def dest: set_takeWhileD)
  have "split_on NL doc = split_on NL a @ split_on NL (?l @ NL # b)"
    using assms(2) b by (simp add: split_on_append)
  also have "\<dots> = split_on NL a @ ?l # split_on NL b"
    using split_on_append [of NL ?l b] split_on_no_sep [OF nl] by simp
  finally have "?l \<in> set (tl (split_on NL doc))"
    using split_on_nonempty [of NL a] by (cases "split_on NL a") auto
  moreover have "is_delimiter_line ?l"
    using assms(1) by (auto simp: is_delimiter_line_def js_def list_all_iff dest: set_takeWhileD)
  ultimately show ?thesis by (auto simp: list_ex_iff)
qed

text \<open>
  C3. For every document whose first line is an opening \<^verbatim>\<open>---\<close> line and that has no closing
  \<^verbatim>\<open>---\<close> delimiter line after it, \<^verbatim>\<open>parseMetadata\<close> returns empty metadata and, as the body,
  the trimmed full original text, the partial front-matter block included.
\<close>

theorem parseMetadata_unclosed:
  assumes "is_delimiter_line (hd (split_on NL doc))"
    and "\<not> list_ex is_delimiter_line (tl (split_on NL doc))"
  shows "parseMetadata doc = (Map.empty, trim doc)"
proof (cases "metadata_match doc")
  case None
  then show ?thesis by (simp add: parseMetadata_def)
next
  case (Some m)
  obtain g rest where "m = (g, rest)" by (cases m)
  with Some metadata_match_shape closing_line_exists assms(2) show ?thesis by blast
qed

theorem parseMetadata_unclosed_witness:
  "parseMetadata (js ''---'' @ NL # js ''title: x'' @ NL # js '' body '') =
     (Map.empty, js ''---'' @ NL # js ''title: x'' @ NL # js '' body'')"
proof -
  have 1: "split_on NL (js ''---'' @ NL # js ''title: x'' @ NL # js '' body '') =
      [js ''---'', js ''title: x'', js '' body '']"
    by (simp add: js_def)
  show ?thesis
    using parseMetadata_unclosed [of "js ''---'' @ NL # js ''title: x'' @ NL # js '' body ''"]
    unfolding 1
    by (simp add: is_delimiter_line_def js_def trim_def is_ws_def)
qed

text \<open>The four cases of \<open>stripQuotes\<close> on a value that is not empty.\<close>

lemma stripQuotes_both: "is_quote p \<Longrightarrow> is_quote q \<Longrightarrow> stripQuotes (p # v @ [q]) = v"
  by (simp add: stripQuotes_def)

lemma stripQuotes_leading:
  "is_quote p \<Longrightarrow> v = [] \<or> \<not> is_quote (last v) \<Longrightarrow> stripQuotes (p # v) = v"
  by (auto simp: stripQuotes_def)

lemma stripQuotes_trailing:
  "v \<noteq> [] \<Longrightarrow> \<not> is_quote (hd v) \<Longrightarrow> is_quote q \<Longrightarrow> stripQuotes (v @ [q]) = v"
  by (cases v) (auto simp: stripQuotes_def)

lemma stripQuotes_none:
  "v \<noteq> [] \<Longrightarrow> \<not> is_quote (hd v) \<Longrightarrow> \<not> is_quote (last v) \<Longrightarrow> stripQuotes v = v"
  by (cases v) (auto simp: stripQuotes_def)

text \<open>
  A line \<^verbatim>\<open>key: value\<close>, with any white space around its parts, stores the value without
  its outer quotes under the key.
\<close>

lemma meta_line_key_value:
  assumes k: "key \<noteq> []" "trim key = key" "COLON \<notin> set key" "key \<noteq> js ''__proto__''"
    and v: "val \<noteq> []" "trim val = val"
    and w: "list_all is_ws w1" "list_all is_ws w2" "list_all is_ws w3" "list_all is_ws w4"
  shows "meta_line m (w1 @ key @ w2 @ COLON # w3 @ val @ w4) = m(key \<mapsto> stripQuotes val)"
proof -
  let ?t = "key @ w2 @ COLON # w3 @ val"
  have nc: "\<not> is_ws COLON" by (simp add: is_ws_def)
  have c2: "COLON \<notin> set w2" using w(2) nc by (auto simp: list_all_iff)
  have ek: "\<not> is_ws (hd key)" using trim_ends(1) [of key] k by simp
  have ev: "\<not> is_ws (last val)" using trim_ends(2) [of val] v by simp
  have "trim ?t = ?t"
    by (rule trim_id) (use k(1) v(1) ek ev in auto)
  then have t: "trim (w1 @ key @ w2 @ COLON # w3 @ val @ w4) = ?t"
    using trim_pad [of ?t w1 w4] w k(1) by simp
  have tw: "takeWhile (\<lambda>c. c \<noteq> COLON) ?t = key @ w2"
    using k(3) c2 by (simp add: takeWhile_append)
  have 1: "take (length (key @ w2)) ?t = key @ w2" by simp
  have 2: "drop (length (key @ w2) + 1) ?t = w3 @ val" by simp
  have 3: "trim (key @ w2) = key" using trim_pad [of key "[]" w2] k w by simp
  have 4: "trim (w3 @ val) = val" using trim_pad [of val w3 "[]"] v w by simp
  have 5: "?t \<noteq> []" "COLON \<in> set ?t" using k(1) by auto
  show ?thesis
    unfolding meta_line_def t Let_def tw 1 2 3 4
    using 5 k v by (simp add: obj_set_def)
qed

text \<open>A front matter of one line is matched, and the group is that line.\<close>

lemma find_close_skip:
  assumes "NL \<notin> set a"
  shows "find_close (a @ s) = map_option (\<lambda>(g, rest). (a @ g, rest)) (find_close s)"
  using assms
proof (induction a)
  case Nil
  show ?case by (simp add: option.map_ident split_def)
next
  case (Cons c a)
  then have "(if prefix (NL # js ''---'') (c # a @ s) then ws_then_nl (drop 4 (c # a @ s)) else None) = None"
    by auto
  then have "find_close ((c # a) @ s) = (case find_close (a @ s) of None \<Rightarrow> None | Some (g, rest) \<Rightarrow> Some (c # g, rest))"
    by simp
  with Cons show ?case by (auto split: option.splits)
qed

lemma find_close_line:
  assumes "NL \<notin> set line"
  shows "\<exists>rest. find_close (line @ NL # js ''---'' @ NL # body) = Some (line, rest)"
proof -
  have "ws_then_nl (NL # body) \<noteq> None" by (simp add: ws_then_nl_def is_ws_def)
  then have "\<exists>rest. find_close (NL # js ''---'' @ NL # body) = Some ([], rest)"
    by (auto simp: js_def)
  then show ?thesis using find_close_skip [OF assms] by auto
qed

lemma opening_newlines:
  assumes "NL \<notin> set w"
  shows "filter (\<lambda>k. (NL # w) ! k = NL) [0..<length (NL # w)] = [0]"
proof -
  have "[0..<length (NL # w)] = 0 # map Suc [0..<length w]"
    by (simp add: upt_conv_Cons map_Suc_upt del: upt_Suc)
  moreover have "\<forall>k<length w. w ! k \<noteq> NL" using assms nth_mem by metis
  then have "filter (\<lambda>k. (NL # w) ! k = NL) (map Suc [0..<length w]) = []"
    by (auto simp: filter_empty_conv)
  ultimately show ?thesis by simp
qed

lemma metadata_match_one_line:
  assumes "NL \<notin> set line" "line \<noteq> []" "\<not> list_all is_ws line"
  shows "\<exists>rest. metadata_match (js ''---'' @ NL # line @ NL # js ''---'' @ NL # body) = Some (line, rest)"
proof -
  let ?c = "js ''---'' @ NL # line @ NL # js ''---'' @ NL # body"
  let ?r = "NL # line @ NL # js ''---'' @ NL # body"
  have p: "prefix (js ''---'') ?c" by simp
  have d: "drop 3 ?c = ?r" by (simp add: js_def)
  obtain x where x: "x \<in> set line" "\<not> is_ws x" using assms(3) by (auto simp: list_all_iff)
  have tw: "takeWhile is_ws (line @ NL # js ''---'' @ NL # body) = takeWhile is_ws line"
    using x by (rule takeWhile_append1)
  have nw: "is_ws NL" by (simp add: is_ws_def)
  have w: "takeWhile is_ws ?r = NL # takeWhile is_ws line"
    using tw nw by simp
  have "NL \<notin> set (takeWhile is_ws line)" using assms(1) by (auto dest: set_takeWhileD)
  note ks = opening_newlines [OF this]
  obtain rest where "find_close (line @ NL # js ''---'' @ NL # body) = Some (line, rest)"
    using find_close_line [OF assms(1)] by blast
  then have "metadata_match ?c = Some (line, rest)"
    unfolding metadata_match_def d Let_def w ks using p by simp
  then show ?thesis by blast
qed

text \<open>
  C4, as stated, fails: the quote at the start and the quote at the end of a value are
  removed independently of each other, so a value whose quotes do not match is changed.
\<close>

theorem parseMetadata_quotes_counterexample:
  \<open>fst (parseMetadata (js ''---'' @ NL # (js ''k: "v'' @ [SQUOTE]) @ NL # js ''---'' @ [NL]))
       (js ''k'') = Some (js ''v'')
   \<and> js ''v'' \<noteq> js ''"v'' @ [SQUOTE]\<close>
  by (simp add: parseMetadata_def metadata_match_def ws_then_nl_def meta_line_def trim_def
      stripQuotes_def is_quote_def obj_set_def is_ws_def js_def)

text \<open>
  C4, amended. For every front-matter \<^verbatim>\<open>key: value\<close> line, \<^verbatim>\<open>parseMetadata\<close> stores the value
  with one leading quote character (\<^verbatim>\<open>"\<close> or \<^verbatim>\<open>'\<close>) removed if the value starts with one, and
  one trailing quote character removed if what remains ends with one. The two are removed
  independently, whether or not they match: a value quoted at both ends loses both
  quotes, a value quoted at one end loses that quote, and a value with no quote at
  either end is left unchanged.
\<close>

theorem parseMetadata_quotes:
  assumes "key \<noteq> []" "trim key = key" "COLON \<notin> set key" "NL \<notin> set key"
    and "key \<noteq> js ''__proto__''"
    and "val \<noteq> []" "trim val = val" "NL \<notin> set val"
    and "list_all is_ws w1" "list_all is_ws w2" "list_all is_ws w3" "list_all is_ws w4"
    and "NL \<notin> set (w1 @ w2 @ w3 @ w4)"
  shows "fst (parseMetadata (js ''---'' @ NL # (w1 @ key @ w2 @ COLON # w3 @ val @ w4)
                @ NL # js ''---'' @ NL # body)) key = Some (stripQuotes val)
       \<and> (\<forall>p q v. is_quote p \<and> is_quote q \<longrightarrow> stripQuotes (p # v @ [q]) = v)
       \<and> (\<forall>p v. is_quote p \<and> (v = [] \<or> \<not> is_quote (last v)) \<longrightarrow> stripQuotes (p # v) = v)
       \<and> (\<forall>q v. v \<noteq> [] \<and> \<not> is_quote (hd v) \<and> is_quote q \<longrightarrow> stripQuotes (v @ [q]) = v)
       \<and> (\<forall>v. v \<noteq> [] \<and> \<not> is_quote (hd v) \<and> \<not> is_quote (last v) \<longrightarrow> stripQuotes v = v)"
proof -
  let ?line = "w1 @ key @ w2 @ COLON # w3 @ val @ w4"
  have nl: "NL \<notin> set ?line" using assms(4,8,13) by auto
  have "\<not> is_ws (hd key)" using trim_ends(1) [of key] assms(1,2) by simp
  then have "\<not> list_all is_ws ?line" using assms(1) by (cases key) auto
  moreover have "?line \<noteq> []" using assms(1) by simp
  ultimately obtain rest where
    "metadata_match (js ''---'' @ NL # ?line @ NL # js ''---'' @ NL # body) = Some (?line, rest)"
    using metadata_match_one_line [OF nl] by blast
  then have "fst (parseMetadata (js ''---'' @ NL # ?line @ NL # js ''---'' @ NL # body)) =
      meta_line Map.empty ?line"
    using split_on_no_sep [OF nl] by (simp add: parseMetadata_def)
  also have "\<dots> = Map.empty(key \<mapsto> stripQuotes val)"
    by (rule meta_line_key_value) (use assms in auto)
  finally have 1: "fst (parseMetadata (js ''---'' @ NL # ?line @ NL # js ''---'' @ NL # body)) key
      = Some (stripQuotes val)"
    by simp
  from 1 stripQuotes_both stripQuotes_leading stripQuotes_trailing stripQuotes_none
  show ?thesis by blast
qed

theorem parseMetadata_quotes_witness:
  \<open>fst (parseMetadata (js ''---'' @ NL # (js ''title'' @ COLON # [SP] @ js ''"Hello"'')
                @ NL # js ''---'' @ NL # js ''body'')) (js ''title'') = Some (js ''Hello'')
   \<and> stripQuotes (js ''"v'') = js ''v''\<close>
proof -
  have "trim (js ''title'') = js ''title''" \<open>trim (js ''"Hello"'') = js ''"Hello"''\<close>
    by (simp_all add: trim_def is_ws_def js_def)
  moreover have "list_all is_ws [SP]" by (simp add: is_ws_def)
  moreover have \<open>stripQuotes (js ''"Hello"'') = js ''Hello''\<close> \<open>stripQuotes (js ''"v'') = js ''v''\<close>
    by (simp_all add: stripQuotes_def is_quote_def js_def)
  ultimately show ?thesis
    using parseMetadata_quotes [of "js ''title''" \<open>js ''"Hello"''\<close> "[]" "[]" "[SP]" "[]" "js ''body''"]
    by (simp add: js_def)
qed

section \<open>Properties of parseLinksAndImages\<close>

text \<open>
  An image whose alternative text and address hold no \<^verbatim>\<open>[\<close> becomes the \<^verbatim>\<open><img>\<close> element and
  nothing else: the link pattern finds no bracket to start from.
\<close>

lemma replace_all_no_match:
  assumes "\<And>prev s. hd s \<noteq> LBRACKET \<or> s = [] \<Longrightarrow> m prev s = None"
  shows "LBRACKET \<notin> set s \<Longrightarrow> replace_all m f prev s = s"
proof (induction s arbitrary: prev)
  case Nil
  then show ?case using assms [of "[]"] by simp
next
  case (Cons c cs)
  then have "m prev (c # cs) = None" using assms [of "c # cs" prev] by simp
  with Cons show ?case by simp
qed

lemma link_at_needs_bracket: "hd s \<noteq> LBRACKET \<or> s = [] \<Longrightarrow> link_at prev s = None"
  by (cases s) (auto simp: link_at_def)

lemma escapeHtml_no_bracket: "LBRACKET \<notin> set s \<Longrightarrow> LBRACKET \<notin> set (escapeHtml (JString s))"
  by (auto simp: escapeHtml_def escape_unit_def htmlEntities_def js_def split: if_splits)

lemma image_html_no_bracket:
  "LBRACKET \<notin> set alt \<Longrightarrow> LBRACKET \<notin> set src \<Longrightarrow> LBRACKET \<notin> set (image_html (alt, src))"
  using escapeHtml_no_bracket [of alt] escapeHtml_no_bracket [of src]
  by (simp add: image_html_def js_def)

lemma parseLinksAndImages_plain_image:
  assumes "RBRACKET \<notin> set alt" "LBRACKET \<notin> set alt"
    and "RPAREN \<notin> set src" "LBRACKET \<notin> set src" "src \<noteq> []"
  shows "parseLinksAndImages (BANG # LBRACKET # alt @ RBRACKET # LPAREN # src @ [RPAREN])
           = image_html (alt, src)"
proof -
  let ?s = "BANG # LBRACKET # alt @ RBRACKET # LPAREN # src @ [RPAREN]"
  have a1: "x \<noteq> RBRACKET" if "x \<in> set alt" for x using that assms(1) by blast
  have a2: "x \<noteq> RPAREN" if "x \<in> set src" for x using that assms(3) by blast
  have t: "takeWhile (\<lambda>c. c \<noteq> RBRACKET) (alt @ RBRACKET # LPAREN # src @ [RPAREN]) = alt"
    using takeWhile_append2 [of alt "\<lambda>c. c \<noteq> RBRACKET", OF a1] by simp
  have d: "dropWhile (\<lambda>c. c \<noteq> RBRACKET) (alt @ RBRACKET # LPAREN # src @ [RPAREN])
      = RBRACKET # LPAREN # src @ [RPAREN]"
    using dropWhile_append2 [of alt "\<lambda>c. c \<noteq> RBRACKET", OF a1] by simp
  have t2: "takeWhile (\<lambda>c. c \<noteq> RPAREN) (src @ [RPAREN]) = src"
    using takeWhile_append2 [of src "\<lambda>c. c \<noteq> RPAREN", OF a2] by simp
  have d2: "dropWhile (\<lambda>c. c \<noteq> RPAREN) (src @ [RPAREN]) = [RPAREN]"
    using dropWhile_append2 [of src "\<lambda>c. c \<noteq> RPAREN", OF a2] by simp
  have b: "bracket_paren True (alt @ RBRACKET # LPAREN # src @ [RPAREN])
      = Some (alt, src, length alt + 2 + length src + 1)"
    unfolding bracket_paren_def t d Let_def using assms(5) by (simp add: t2 d2)
  have i: "image_at None ?s = Some ((alt, src), length ?s)"
    by (simp add: image_at_def b)
  have "replace_all image_at image_html None ?s = image_html (alt, src) @ replace_all image_at image_html (Some RPAREN) []"
    using i by (simp del: replace_all.simps add: replace_all.simps(2) [of _ _ _ BANG])
  then have 1: "replace_all image_at image_html None ?s = image_html (alt, src)"
    by (simp add: image_at_def)
  have "replace_all link_at link_html None (image_html (alt, src)) = image_html (alt, src)"
    by (rule replace_all_no_match [OF link_at_needs_bracket image_html_no_bracket]) (use assms in auto)
  with 1 show ?thesis by (simp add: parseLinksAndImages_def)
qed

text \<open>
  C7 fails on the code. The escaping of \<^verbatim>\<open>alt\<close> and \<^verbatim>\<open>src\<close> leaves brackets and parentheses
  alone, and the link pattern runs over the \<^verbatim>\<open><img>\<close> element that the image pattern has
  just written. The input \<^verbatim>\<open>![)]([x](y)\<close> is one image span (the image pattern matches all of
  it, with \<^verbatim>\<open>alt\<close> \<^verbatim>\<open>)\<close> and \<^verbatim>\<open>src\<close> \<^verbatim>\<open>[x](y\<close>), and the output holds a link element inside
  the \<^verbatim>\<open>src\<close> attribute.
\<close>

theorem parseLinksAndImages_image_span:
  \<open>image_at None (js ''![)]([x](y)'') = Some ((js '')'', js ''[x](y''), length (js ''![)]([x](y)''))
   \<and> parseLinksAndImages (js ''![)]([x](y)'')
       = js ''<img src="<a href="y&quot; alt=&quot;" class="blog-link">x</a>" class="blog-image" loading="lazy">''
   \<and> count_sub (js ''<a '') (parseLinksAndImages (js ''![)]([x](y)'')) = 1\<close>
  by (simp add: parseLinksAndImages_def image_at_def link_at_def bracket_paren_def
      image_html_def link_html_def escapeHtml_def escape_unit_def htmlEntities_def js_def)

section \<open>Properties of parse\<close>

text \<open>
  For a string that is not empty \<^verbatim>\<open>parse\<close> returns a record; the current date enters it
  through the metadata only.
\<close>

lemma parse_string:
  assumes "s \<noteq> []"
  shows "\<exists>r. parse today (JString s) = Inr r
           \<and> metadata r = result_metadata today (fst (parseMetadata s))
           \<and> (\<forall>today'. parse today' (JString s)
                 = Inr (r\<lparr>metadata := result_metadata today' (fst (parseMetadata s))\<rparr>))"
  using assms
  by (simp add: parse_def parse_try_def parse_catch_def Let_def split: prod.splits)

lemma result_metadata_tags:
  "result_metadata today md (js ''tags'') =
     (case md (js ''tags'') of Some v \<Rightarrow> Some (JString v) | None \<Rightarrow> Some (JArray []))"
  by (simp add: result_metadata_def map_add_def js_def split: option.splits)



text \<open>
  C1 fails on the code. The \<^verbatim>\<open>tags\<close> property is first written as the array of trimmed
  pieces, but the spread \<^verbatim>\<open>...metadata\<close> behind it writes the string of the front matter
  over it. For the document with the front-matter line \<^verbatim>\<open>tags: a, b\<close> the field
  \<^verbatim>\<open>metadata.tags\<close> of the result is the string \<^verbatim>\<open>a, b\<close>, on any day.
\<close>

theorem parse_tags_string:
  "(case parse today (JString (js ''---'' @ NL # js ''tags: a, b'' @ NL # js ''---'' @ NL # js ''body''))
    of Inr r \<Rightarrow> metadata r (js ''tags'') | Inl e \<Rightarrow> None)
   = Some (JString (js ''a, b''))
   \<and> JString (js ''a, b'') \<noteq> JArray [JString (js ''a''), JString (js ''b'')]"
proof -
  let ?d = "js ''---'' @ NL # js ''tags: a, b'' @ NL # js ''---'' @ NL # js ''body''"
  have pm: "fst (parseMetadata ?d) (js ''tags'') = Some (js ''a, b'')"
    by (simp add: parseMetadata_def metadata_match_def ws_then_nl_def meta_line_def trim_def
        stripQuotes_def is_quote_def obj_set_def is_ws_def js_def)
  have "?d \<noteq> []" by (simp add: js_def)
  from parse_string [OF this, of today] obtain r where
    "parse today (JString ?d) = Inr r"
    "metadata r = result_metadata today (fst (parseMetadata ?d))"
    by blast
  then show ?thesis by (simp add: result_metadata_tags pm)
qed

text \<open>
  Where the front matter has no \<^verbatim>\<open>tags\<close> key, the field is the empty array; where it has
  one, the field is the string of the front matter.
\<close>

lemma parse_tags:
  assumes "s \<noteq> []"
  shows "\<exists>r. parse today (JString s) = Inr r
           \<and> metadata r (js ''tags'') =
               (case fst (parseMetadata s) (js ''tags'') of
                  Some v \<Rightarrow> Some (JString v)
                | None \<Rightarrow> Some (JArray []))"
  using parse_string [OF assms, of today] by (auto simp: result_metadata_tags)






section \<open>The examples of the specification\<close>

text \<open>
  The sanitizer example and the end-to-end example, evaluated stage by stage. In the
  end-to-end example the second line follows the heading without a blank line, so both
  are one section for \<^verbatim>\<open>parseParagraphs\<close>, which starts with a tag and is passed through;
  the \<^verbatim>\<open>tags\<close> field is the string of the front matter.
\<close>

lemma sanitizeHtml_example:
  \<open>sanitizeHtml (JString (js ''<script>alert(1)</script><p onclick="x()">hi</p>'')) = js ''<p>hi</p>''\<close>
  by (simp add: sanitizeHtml_def script_at_def handler_at_def javascript_at_def prefix_ci_def
      ascii_upper_def is_ws_def is_lt_def is_digit_def is_word_def is_quote_def js_def)

lemma parse_example:
  \<open>parse today (JString (js ''---'' @ NL # js ''title: Hello'' @ NL # js ''tags: a, b'' @ NL # js ''---''
       @ NL # js ''# Hi'' @ NL # js ''**bold** and *em*''))
   = Inr \<lparr>metadata = [js ''title'' \<mapsto> JString (js ''Hello''), js ''date'' \<mapsto> JString today,
                        js ''author'' \<mapsto> JString (js ''Anonymous''), js ''tags'' \<mapsto> JString (js ''a, b'')],
          preview = [],
          content = js ''<h1 id="hi" class="blog-heading">Hi</h1>'' @ NL #
                    js ''<strong class="blog-bold">bold</strong> and <em class="blog-italic">em</em>'',
          wordCount = 4, estimatedReadTime = 1\<rparr>\<close>
proof -
  let ?d = \<open>js ''---'' @ NL # js ''title: Hello'' @ NL # js ''tags: a, b'' @ NL # js ''---''
       @ NL # js ''# Hi'' @ NL # js ''**bold** and *em*''\<close>
  let ?b = \<open>js ''# Hi'' @ NL # js ''**bold** and *em*''\<close>
  let ?h = \<open>js ''<h1 id="hi" class="blog-heading">Hi</h1>'' @ NL # js ''**bold** and *em*''\<close>
  let ?f = \<open>js ''<h1 id="hi" class="blog-heading">Hi</h1>'' @ NL #
                    js ''<strong class="blog-bold">bold</strong> and <em class="blog-italic">em</em>''\<close>
  have m: "parseMetadata ?d = ([js ''title'' \<mapsto> js ''Hello'', js ''tags'' \<mapsto> js ''a, b''], ?b)"
    by (simp add: parseMetadata_def metadata_match_def ws_then_nl_def meta_line_def trim_def
        stripQuotes_def obj_set_def is_ws_def is_lt_def is_digit_def is_word_def is_quote_def js_def)
  have p: "extractPreview ?b = ([], ?b)"
    by (simp add: extractPreview_def preview_at_def is_ws_def is_lt_def is_digit_def is_word_def is_quote_def js_def)
  have s: "sanitizeHtml (JString ?b) = ?b"
    by (simp add: sanitizeHtml_def script_at_def handler_at_def javascript_at_def prefix_ci_def
      ascii_upper_def is_ws_def is_lt_def is_digit_def is_word_def is_quote_def js_def)
  have c: "parseCode ?b = ?b"
    by (simp add: parseCode_def codeBlock_at_def code_at_def is_ws_def is_lt_def is_digit_def is_word_def is_quote_def js_def)
  have h: "parseHeadings ?b = ?h"
    by (simp add: parseHeadings_def heading_at_def heading_html_def heading_id_def lower_alnum_def
        strip_dashes_def level_digit_def ws_text_m_def at_bol_def trim_def is_ws_def is_lt_def is_digit_def is_word_def is_quote_def js_def)
  have l: "parseLinksAndImages ?h = ?h"
    by (simp add: parseLinksAndImages_def image_at_def link_at_def is_ws_def is_lt_def is_digit_def is_word_def is_quote_def js_def)
  have f: "parseFormatting ?h = ?f"
    by (simp add: parseFormatting_def bold_at_def italic_at_def bold_html_def italic_html_def is_ws_def is_lt_def is_digit_def is_word_def is_quote_def js_def)
  have li: "parseLists ?f = ?f"
    by (simp add: parseLists_def parseLists_lines_def list_step_def list_init_def list_finish_def
        push_def unorderedMatch_def orderedMatch_def is_ws_def is_lt_def is_digit_def is_word_def is_quote_def js_def)
  have b: "parseBlockElements ?f = ?f"
    by (simp add: parseBlockElements_def blockquote_at_def horizontalRule_at_def at_bol_def is_ws_def is_lt_def is_digit_def is_word_def is_quote_def js_def)
  have pa: "parseParagraphs ?f = ?f"
    by (simp add: parseParagraphs_def paragraph_step_def starts_block_def ws_then_nl_def trim_def
        is_ws_def is_lt_def is_digit_def is_word_def is_quote_def js_def)
  have t: "trim ?f = ?f" by (simp add: trim_def is_ws_def is_lt_def is_digit_def is_word_def is_quote_def js_def)
  have w: "countWords ?f = 4"
    by (simp add: countWords_def trim_def split_ws.simps is_ws_def is_lt_def is_digit_def is_word_def is_quote_def js_def)
  have md: "result_metadata today [js ''title'' \<mapsto> js ''Hello'', js ''tags'' \<mapsto> js ''a, b'']
     = [js ''title'' \<mapsto> JString (js ''Hello''), js ''date'' \<mapsto> JString today,
                        js ''author'' \<mapsto> JString (js ''Anonymous''), js ''tags'' \<mapsto> JString (js ''a, b'')]"
    by (rule ext) (simp add: result_metadata_def or_default_def map_add_def js_def)
  have ne: "?d \<noteq> []" by (simp add: js_def)
  have "parse_try today ?d = Inr \<lparr>metadata = [js ''title'' \<mapsto> JString (js ''Hello''), js ''date'' \<mapsto> JString today,
                        js ''author'' \<mapsto> JString (js ''Anonymous''), js ''tags'' \<mapsto> JString (js ''a, b'')],
          preview = [], content = ?f, wordCount = 4, estimatedReadTime = 1\<rparr>"
    unfolding parse_try_def m prod.case p Let_def s c h l f li b pa t w md estimateReadTime_def
    by simp
  then show ?thesis
    using ne by (simp add: parse_def parse_catch_def del: fun_upd_apply)
qed

end
